theory Spec2Isabelle
  imports Main "HOL-Library.Word"
begin

section \<open>Repeated Balls-into-Bins: the simulation engine of \<open>rbb_stacs_2023.cc\<close>\<close>

text \<open>
  The C++ source works on \<open>size_t\<close> loads and counters (64-bit unsigned on the LP64
  targets the program is built for) and on one \<open>int\<close> loop counter (32-bit signed).
  Unsigned arithmetic wraps around; signed overflow, an out-of-range \<open>operator[]\<close> and
  a division by zero are undefined behaviour and appear here as values of \<open>fault\<close>. So
  do the two exceptions a \<open>std::vector\<close> throws when it is built, \<open>std::length_error\<close>
  and \<open>std::bad_alloc\<close>: nothing in the program catches them, they end the run.
  A \<open>std::vector\<close> is a list; its \<open>size()\<close> is the length read as a \<open>size_t\<close>.
\<close>

type_synonym size_t = "64 word"

datatype fault = IndexOutOfRange | SignedOverflow | DivisionByZero | LengthError | BadAlloc

definition INT_MAX :: int where
  "INT_MAX = 2147483647"

definition vector_size :: "'a list \<Rightarrow> size_t" where
  "vector_size xs = of_nat (length xs)"

text \<open>The value of the C++ expression \<open>(cond)\<close> of type \<open>bool\<close> promoted to \<open>size_t\<close>.\<close>

definition bool_to_size_t :: "bool \<Rightarrow> size_t" where
  "bool_to_size_t c = (if c then 1 else 0)"

subsection \<open>The engine state\<close>

text \<open>
  The members of \<open>class RepeatedBallsIntoBins\<close>, without the trailing underscore of
  the C++ names. \<open>bin_uar\<close> holds the two parameters \<open>(a, b)\<close> of the
  \<open>std::uniform_int_distribution<size_t>\<close>.
\<close>

record RepeatedBallsIntoBins =
  load_vector :: "size_t list"
  num_empty_bins :: size_t
  max_load :: size_t
  bin_uar :: "size_t \<times> size_t"

text \<open>
  \<open>bin_uar_(generator)\<close>: the call operator of the distribution is library code. It is a
  parameter of the model: from the distribution's parameters and the generator's state
  it yields the sample and the generator's next state.
\<close>

type_synonym 'g uniform_int_distribution = "size_t \<times> size_t \<Rightarrow> 'g \<Rightarrow> size_t \<times> 'g"

text \<open>What the C++ standard promises of the call operator: a value in \<open>[a, b]\<close>.\<close>

definition uniform_int_contract :: "'g uniform_int_distribution \<Rightarrow> bool" where
  "uniform_int_contract sample =
     (\<forall>a b g. a \<le> b \<longrightarrow> a \<le> fst (sample (a, b) g) \<and> fst (sample (a, b) g) \<le> b)"

text \<open>
  A deterministic source for running the model on concrete inputs: the generator state
  is a script of requested bins, each clamped into \<open>[a, b]\<close>; an exhausted script
  yields \<open>a\<close>.
\<close>

fun scripted :: "size_t list uniform_int_distribution" where
  "scripted (a, b) [] = (a, [])"
| "scripted (a, b) (x # xs) = ((if a \<le> x \<and> x \<le> b then x else a), xs)"

subsection \<open>Construction\<close>

text \<open>
  The constructor's range-for over \<open>load_vector_\<close>:
  \<open>max_load_ = std::max(max_load_, val); num_empty_bins_ += (val == 0);\<close>
\<close>

fun ctor_scan :: "size_t list \<Rightarrow> RepeatedBallsIntoBins \<Rightarrow> RepeatedBallsIntoBins" where
  "ctor_scan [] s = s"
| "ctor_scan (val # rest) s =
     ctor_scan rest
       (s\<lparr>max_load := max (max_load s) val,
          num_empty_bins := num_empty_bins s + bool_to_size_t (val = 0)\<rparr>)"

definition RepeatedBallsIntoBins_ctor :: "size_t list \<Rightarrow> RepeatedBallsIntoBins" where
  "RepeatedBallsIntoBins_ctor lv =
     ctor_scan lv
       \<lparr>load_vector = lv, num_empty_bins = 0, max_load = 0,
        bin_uar = (0, vector_size lv - 1)\<rparr>"

subsection \<open>One round\<close>

text \<open>
  Phase 1, the loop \<open>for (size_t i = 0; i < n; ++i)\<close>. Its body at index \<open>i\<close>:
  \<open>if (load_vector_[i] > 0) --load_vector_[i];\<close> then the two statistics.
\<close>

definition collect_bin :: "nat \<Rightarrow> RepeatedBallsIntoBins \<Rightarrow> RepeatedBallsIntoBins" where
  "collect_bin i s =
     (let lv = load_vector s;
          lv' = (if lv ! i > 0 then lv[i := lv ! i - 1] else lv)
      in s\<lparr>load_vector := lv',
            max_load := max (max_load s) (lv' ! i),
            num_empty_bins := num_empty_bins s + bool_to_size_t (lv' ! i = 0)\<rparr>)"

text \<open>
  The counter is a \<open>size_t\<close>; every \<open>load_vector_[i]\<close> is checked against the
  vector's length.
\<close>

function phase1 :: "size_t \<Rightarrow> size_t \<Rightarrow> RepeatedBallsIntoBins \<Rightarrow> fault + RepeatedBallsIntoBins" where
  "phase1 i n s =
     (if i < n then
        (if unat i < length (load_vector s) then phase1 (i + 1) n (collect_bin (unat i) s)
         else Inl IndexOutOfRange)
      else Inr s)"
  by pat_completeness auto

termination
proof (relation "measure (\<lambda>(i, n, s). unat n - unat i)")
  show "wf (measure (\<lambda>(i, n, s). unat n - unat i))" by simp
next
  fix i n :: size_t and s :: RepeatedBallsIntoBins
  assume "i < n"
  then have lt: "unat i < unat n"
    by (simp add: word_less_nat_alt)
  moreover have "unat n < 2 ^ 64"
    using unsigned_less [of n] by simp
  ultimately have "unat i + unat (1 :: size_t) < 2 ^ LENGTH(64)"
    by simp
  then have "unat (i + 1) = unat i + 1"
    using unat_add_lem [of i 1] by simp
  with lt show "((i + 1, n, collect_bin (unat i) s), i, n, s) \<in> measure (\<lambda>(i, n, s). unat n - unat i)"
    by simp
qed

text \<open>
  Phase 2, the loop \<open>for (int j = 0; j < balls_to_allocate; ++j)\<close>. Its body after
  the draw of bin \<open>i\<close>: \<open>++load_vector_[i];\<close> then the two statistics.
\<close>

definition allocate_ball :: "nat \<Rightarrow> RepeatedBallsIntoBins \<Rightarrow> RepeatedBallsIntoBins" where
  "allocate_ball i s =
     (let lv' = (load_vector s)[i := load_vector s ! i + 1]
      in s\<lparr>load_vector := lv',
            max_load := max (max_load s) (lv' ! i),
            num_empty_bins := num_empty_bins s - bool_to_size_t (lv' ! i = 1)\<rparr>)"

text \<open>
  The counter is an \<open>int\<close>: the comparison converts it to \<open>size_t\<close>, and \<open>++j\<close> at
  \<open>INT_MAX\<close> is a signed overflow. The drawn index is checked against the vector's
  length.
\<close>

function phase2 ::
  "'g uniform_int_distribution \<Rightarrow> size_t \<Rightarrow> int \<Rightarrow> RepeatedBallsIntoBins \<Rightarrow> 'g
     \<Rightarrow> fault + (RepeatedBallsIntoBins \<times> 'g)" where
  "phase2 sample balls_to_allocate j s g =
     (if (of_int j :: size_t) < balls_to_allocate then
        (if unat (fst (sample (bin_uar s) g)) < length (load_vector s) then
           (if j + 1 > INT_MAX then Inl SignedOverflow
            else phase2 sample balls_to_allocate (j + 1)
                   (allocate_ball (unat (fst (sample (bin_uar s) g))) s)
                   (snd (sample (bin_uar s) g)))
         else Inl IndexOutOfRange)
      else Inr (s, g))"
  by pat_completeness auto

termination
  by (relation "measure (\<lambda>(sample, b, j, s, g). nat (INT_MAX - j))") auto

text \<open>\<open>size_t balls_to_allocate = n - num_empty_bins_;\<close> (unsigned subtraction).\<close>

definition balls_to_allocate :: "RepeatedBallsIntoBins \<Rightarrow> size_t" where
  "balls_to_allocate s = vector_size (load_vector s) - num_empty_bins s"

definition nextRound ::
  "'g uniform_int_distribution \<Rightarrow> RepeatedBallsIntoBins \<Rightarrow> 'g
     \<Rightarrow> fault + (RepeatedBallsIntoBins \<times> 'g)" where
  "nextRound sample s g =
     (let n = vector_size (load_vector s);
          b = balls_to_allocate s;
          s0 = s\<lparr>max_load := 0, num_empty_bins := 0\<rparr>
      in case phase1 0 n s0 of
           Inl e \<Rightarrow> Inl e
         | Inr s1 \<Rightarrow> phase2 sample b 0 s1 g)"

definition getMaxLoad :: "RepeatedBallsIntoBins \<Rightarrow> size_t" where
  "getMaxLoad s = max_load s"

definition getNumEmptyBins :: "RepeatedBallsIntoBins \<Rightarrow> size_t" where
  "getNumEmptyBins s = num_empty_bins s"

definition getLoadVector :: "RepeatedBallsIntoBins \<Rightarrow> size_t list" where
  "getLoadVector s = load_vector s"

text \<open>
  \<open>k\<close> consecutive calls of \<open>nextRound\<close> on one engine with one generator, as the
  round loop of \<open>run_experiments_for_n_and_m\<close> makes them.
\<close>

fun nextRounds ::
  "'g uniform_int_distribution \<Rightarrow> nat \<Rightarrow> RepeatedBallsIntoBins \<Rightarrow> 'g
     \<Rightarrow> fault + (RepeatedBallsIntoBins \<times> 'g)" where
  "nextRounds sample 0 s g = Inr (s, g)"
| "nextRounds sample (Suc k) s g =
     (case nextRound sample s g of
        Inl e \<Rightarrow> Inl e
      | Inr (s', g') \<Rightarrow> nextRounds sample k s' g')"

subsection \<open>Storage of a vector\<close>

text \<open>
  \<open>std::vector<size_t>::max_size()\<close>: with 8-byte elements and a 64-bit \<open>ptrdiff_t\<close> the
  library allows \<open>2^60 - 1\<close> elements.
\<close>

definition vector_max_size :: size_t where
  "vector_max_size = 1152921504606846975"

text \<open>
  The allocator is library code and a parameter of the model, as the distribution is:
  asked for the storage of \<open>n\<close> elements in the state \<open>h\<close> it either refuses (the request
  throws \<open>std::bad_alloc\<close>) or grants it and moves to its next state. The state is
  abstract: it stands for whatever decides which requests are granted.
\<close>

type_synonym 'h operator_new = "'h \<Rightarrow> size_t \<Rightarrow> 'h option"

text \<open>
  \<open>std::vector<size_t>(n, value)\<close> first checks \<open>n\<close> against \<open>max_size()\<close>
  (\<open>std::length_error\<close>), then allocates.
\<close>

definition new_vector_storage :: "'h operator_new \<Rightarrow> 'h \<Rightarrow> size_t \<Rightarrow> fault + 'h" where
  "new_vector_storage allocate h n =
     (if n > vector_max_size then Inl LengthError
      else case allocate h n of None \<Rightarrow> Inl BadAlloc | Some h' \<Rightarrow> Inr h')"

text \<open>The copy of a vector (the member initialiser \<open>load_vector_(load_vector)\<close>) allocates.\<close>

definition copy_vector_storage :: "'h operator_new \<Rightarrow> 'h \<Rightarrow> 'a list \<Rightarrow> fault + 'h" where
  "copy_vector_storage allocate h xs =
     (case allocate h (vector_size xs) of None \<Rightarrow> Inl BadAlloc | Some h' \<Rightarrow> Inr h')"

text \<open>An allocator that grants every request, for running the model on concrete inputs.\<close>

definition unlimited_heap :: "unit operator_new" where
  "unlimited_heap h n = Some h"

subsection \<open>The initial load vector\<close>

text \<open>
  \<open>generate_uniform_vector\<close>: the argument \<open>num_balls / num_bins\<close> is evaluated first (a
  division by zero when there are no bins), then the vector of \<open>num_bins\<close> elements is
  built, then comes the loop \<open>for (size_t i = 0; i < rem; ++i) ++load_vector[i];\<close>
\<close>

function add_remainder :: "size_t \<Rightarrow> size_t \<Rightarrow> size_t list \<Rightarrow> fault + size_t list" where
  "add_remainder i rem lv =
     (if i < rem then
        (if unat i < length lv then add_remainder (i + 1) rem (lv[unat i := lv ! unat i + 1])
         else Inl IndexOutOfRange)
      else Inr lv)"
  by pat_completeness auto

termination
proof (relation "measure (\<lambda>(i, rem, lv). unat rem - unat i)")
  show "wf (measure (\<lambda>(i, rem, lv). unat rem - unat i))" by simp
next
  fix i rem :: size_t and lv :: "size_t list"
  assume "i < rem"
  then have lt: "unat i < unat rem"
    by (simp add: word_less_nat_alt)
  moreover have "unat rem < 2 ^ 64"
    using unsigned_less [of rem] by simp
  ultimately have "unat i + unat (1 :: size_t) < 2 ^ LENGTH(64)"
    by simp
  then have "unat (i + 1) = unat i + 1"
    using unat_add_lem [of i 1] by simp
  with lt show "((i + 1, rem, lv[unat i := lv ! unat i + 1]), i, rem, lv)
      \<in> measure (\<lambda>(i, rem, lv). unat rem - unat i)"
    by simp
qed

definition generate_uniform_vector ::
  "'h operator_new \<Rightarrow> 'h \<Rightarrow> size_t \<Rightarrow> size_t \<Rightarrow> fault + (size_t list \<times> 'h)" where
  "generate_uniform_vector allocate h num_bins num_balls =
     (if num_bins = 0 then Inl DivisionByZero
      else
        (case new_vector_storage allocate h num_bins of
           Inl e \<Rightarrow> Inl e
         | Inr h' \<Rightarrow>
             (let load_vector = replicate (unat num_bins) (num_balls div num_bins);
                  rem = num_balls mod num_bins
              in case add_remainder 0 rem load_vector of
                   Inl e \<Rightarrow> Inl e
                 | Inr v \<Rightarrow> Inr (v, h'))))"

subsection \<open>The experiment runner\<close>

text \<open>
  The round loop of \<open>run_experiments_for_n_and_m\<close>, with its \<open>size_t\<close> counter:
  \<open>rbb.nextRound(generator); aggregate_max_loads += rbb.getMaxLoad();
  aggregate_num_empty_bins += rbb.getNumEmptyBins();\<close>
\<close>

function rounds_loop ::
  "'g uniform_int_distribution \<Rightarrow> size_t \<Rightarrow> size_t \<Rightarrow> RepeatedBallsIntoBins \<Rightarrow> 'g \<Rightarrow> size_t \<Rightarrow> size_t
     \<Rightarrow> fault + ('g \<times> size_t \<times> size_t)" where
  "rounds_loop sample round num_rounds rbb g aggregate_max_loads aggregate_num_empty_bins =
     (if round < num_rounds then
        (case nextRound sample rbb g of
           Inl e \<Rightarrow> Inl e
         | Inr (rbb', g') \<Rightarrow>
             rounds_loop sample (round + 1) num_rounds rbb' g'
               (aggregate_max_loads + getMaxLoad rbb')
               (aggregate_num_empty_bins + getNumEmptyBins rbb'))
      else Inr (g, aggregate_max_loads, aggregate_num_empty_bins))"
  by pat_completeness auto

termination
proof (relation "measure (\<lambda>(sample, round, num_rounds, rbb, g, a, b). unat num_rounds - unat round)")
  show "wf (measure (\<lambda>(sample :: 'g uniform_int_distribution, round, num_rounds,
      rbb :: RepeatedBallsIntoBins, g :: 'g, a :: size_t, b :: size_t).
      unat num_rounds - unat round))"
    by simp
next
  fix sample :: "'g uniform_int_distribution" and round num_rounds :: size_t
    and rbb rbb' :: RepeatedBallsIntoBins and g g' :: 'g and a b :: size_t and x
  assume "round < num_rounds"
  then have lt: "unat round < unat num_rounds"
    by (simp add: word_less_nat_alt)
  moreover have "unat num_rounds < 2 ^ 64"
    using unsigned_less [of num_rounds] by simp
  ultimately have "unat round + unat (1 :: size_t) < 2 ^ LENGTH(64)"
    by simp
  then have "unat (round + 1) = unat round + 1"
    using unat_add_lem [of round 1] by simp
  with lt show "((sample, round + 1, num_rounds, rbb', g', a + getMaxLoad rbb',
        b + getNumEmptyBins rbb'), sample, round, num_rounds, rbb, g, a, b)
      \<in> measure (\<lambda>(sample, round, num_rounds, rbb, g, a, b). unat num_rounds - unat round)"
    by simp
qed

text \<open>
  The repetition loop: a fresh load vector, an engine built from it (its member is a
  copy of the vector), then the rounds. The generator and the two sums run through all
  repetitions. Releasing the two vectors at the end of a repetition cannot fail; the
  allocator's abstract state after the two requests stands for what follows.
\<close>

function repetitions_loop ::
  "'h operator_new \<Rightarrow> 'g uniform_int_distribution \<Rightarrow> size_t \<Rightarrow> size_t \<Rightarrow> size_t \<Rightarrow> size_t \<Rightarrow> size_t
     \<Rightarrow> 'h \<Rightarrow> 'g \<Rightarrow> size_t \<Rightarrow> size_t \<Rightarrow> fault + (size_t \<times> size_t)" where
  "repetitions_loop allocate sample rep num_repetitions num_bins num_balls num_rounds h g
       aggregate_max_loads aggregate_num_empty_bins =
     (if rep < num_repetitions then
        (case generate_uniform_vector allocate h num_bins num_balls of
           Inl e \<Rightarrow> Inl e
         | Inr (lv, h1) \<Rightarrow>
             (case copy_vector_storage allocate h1 lv of
                Inl e \<Rightarrow> Inl e
              | Inr h2 \<Rightarrow>
                  (case rounds_loop sample 0 num_rounds (RepeatedBallsIntoBins_ctor lv) g
                          aggregate_max_loads aggregate_num_empty_bins of
                     Inl e \<Rightarrow> Inl e
                   | Inr (g', max_loads, num_empty) \<Rightarrow>
                       repetitions_loop allocate sample (rep + 1) num_repetitions num_bins
                         num_balls num_rounds h2 g' max_loads num_empty)))
      else Inr (aggregate_max_loads, aggregate_num_empty_bins))"
  by pat_completeness auto

termination
proof (relation "measure (\<lambda>(allocate, sample, rep, num_repetitions, rest).
    unat num_repetitions - unat rep)")
  show "wf (measure (\<lambda>(allocate :: 'h operator_new, sample :: 'g uniform_int_distribution,
      rep, num_repetitions,
      rest :: size_t \<times> size_t \<times> size_t \<times> 'h \<times> 'g \<times> size_t \<times> size_t).
      unat num_repetitions - unat rep))"
    by simp
next
  fix allocate :: "'h operator_new" and sample :: "'g uniform_int_distribution"
    and rep num_repetitions num_bins num_balls num_rounds a b a' b' :: size_t
    and h h2 :: 'h and g g' :: 'g
  assume "rep < num_repetitions"
  then have lt: "unat rep < unat num_repetitions"
    by (simp add: word_less_nat_alt)
  moreover have "unat num_repetitions < 2 ^ 64"
    using unsigned_less [of num_repetitions] by simp
  ultimately have "unat rep + unat (1 :: size_t) < 2 ^ LENGTH(64)"
    by simp
  then have "unat (rep + 1) = unat rep + 1"
    using unat_add_lem [of rep 1] by simp
  with lt show "((allocate, sample, rep + 1, num_repetitions, num_bins, num_balls, num_rounds,
        h2, g', a', b'),
       allocate, sample, rep, num_repetitions, num_bins, num_balls, num_rounds, h, g, a, b)
      \<in> measure (\<lambda>(allocate, sample, rep, num_repetitions, rest).
          unat num_repetitions - unat rep)"
    by simp
qed

text \<open>
  \<open>run_experiments_for_n_and_m\<close>. The default-constructed \<open>std::mt19937_64\<close> starts in a
  fixed state, the parameter \<open>generator\<close>. The conversion \<open>double(x)\<close> of a \<open>size_t\<close> and
  the division of two \<open>double\<close>s are the machine's floating-point operations: they are the
  parameters \<open>to_double\<close> and \<open>fdiv\<close>. In \<open>aggregate_max_loads / double(...)\<close> the
  \<open>size_t\<close> operand is converted to \<open>double\<close>; \<open>num_rounds * num_repetitions\<close> is a
  \<open>size_t\<close> product.
\<close>

definition run_experiments_for_n_and_m ::
  "(size_t \<Rightarrow> 'd) \<Rightarrow> ('d \<Rightarrow> 'd \<Rightarrow> 'd) \<Rightarrow> 'h operator_new \<Rightarrow> 'g uniform_int_distribution \<Rightarrow> 'h \<Rightarrow> 'g
     \<Rightarrow> size_t \<Rightarrow> size_t \<Rightarrow> size_t \<Rightarrow> size_t \<Rightarrow> fault + ('d \<times> 'd)" where
  "run_experiments_for_n_and_m to_double fdiv allocate sample h generator
       num_bins num_balls num_rounds num_repetitions =
     (case repetitions_loop allocate sample 0 num_repetitions num_bins num_balls num_rounds
             h generator 0 0 of
        Inl e \<Rightarrow> Inl e
      | Inr (aggregate_max_loads, aggregate_num_empty_bins) \<Rightarrow>
          (let avg_max_load =
                 fdiv (to_double aggregate_max_loads) (to_double (num_rounds * num_repetitions));
               avg_num_empty_bins =
                 fdiv (to_double aggregate_num_empty_bins)
                   (to_double (num_rounds * num_repetitions))
           in Inr (avg_max_load, avg_num_empty_bins)))"



text \<open>
  Floating-point values for running the model on concrete inputs: the two operations are
  kept as terms.
\<close>

datatype double_term = Double_of size_t | Double_div double_term double_term

text \<open>The loops are unfolded one iteration at a time, by hand.\<close>

declare phase1.simps [simp del] phase2.simps [simp del] add_remainder.simps [simp del]
  rounds_loop.simps [simp del] repetitions_loop.simps [simp del]

subsection \<open>What the statistics are meant to be\<close>

text \<open>The number of balls in the system, as a natural number (no wrap-around).\<close>

definition total_balls :: "size_t list \<Rightarrow> nat" where
  "total_balls lv = sum_list (map unat lv)"

text \<open>The number of indices \<open>i\<close> with \<open>load_vector[i] == 0\<close>.\<close>

definition count_empty :: "size_t list \<Rightarrow> nat" where
  "count_empty lv = length (filter (\<lambda>v. v = 0) lv)"

text \<open>The number of non-empty bins.\<close>

definition count_nonempty :: "size_t list \<Rightarrow> nat" where
  "count_nonempty lv = length (filter (\<lambda>v. v > 0) lv)"

text \<open>The largest entry; \<open>0\<close> for the empty vector, as the constructor's scan gives.\<close>

definition max_entry :: "size_t list \<Rightarrow> size_t" where
  "max_entry lv = Max (insert 0 (set lv))"

text \<open>One bin's load after phase 1.\<close>

definition remove_one :: "size_t \<Rightarrow> size_t" where
  "remove_one v = (if v > 0 then v - 1 else v)"

text \<open>The cached statistics agree with the load vector.\<close>

definition stats_consistent :: "RepeatedBallsIntoBins \<Rightarrow> bool" where
  "stats_consistent s \<longleftrightarrow>
     max_load s = max_entry (load_vector s) \<and>
     unat (num_empty_bins s) = count_empty (load_vector s)"

text \<open>A \<open>std::vector\<close>'s \<open>size()\<close> is a \<open>size_t\<close>: its length is below \<open>2^64\<close>.\<close>

definition vector_fits :: "'a list \<Rightarrow> bool" where
  "vector_fits xs \<longleftrightarrow> length xs < 2 ^ 64"

text \<open>The distribution still has the parameters the constructor gave it.\<close>

definition bin_uar_fixed :: "RepeatedBallsIntoBins \<Rightarrow> bool" where
  "bin_uar_fixed s \<longleftrightarrow> bin_uar s = (0, vector_size (load_vector s) - 1)"

subsection \<open>What the runner is meant to compute\<close>

text \<open>
  The engine states after each of \<open>k\<close> rounds, in order, and the generator they leave.
\<close>

fun rounds_states ::
  "'g uniform_int_distribution \<Rightarrow> nat \<Rightarrow> RepeatedBallsIntoBins \<Rightarrow> 'g
     \<Rightarrow> fault + (RepeatedBallsIntoBins list \<times> 'g)" where
  "rounds_states sample 0 s g = Inr ([], g)"
| "rounds_states sample (Suc k) s g =
     (case nextRound sample s g of
        Inl e \<Rightarrow> Inl e
      | Inr (s', g') \<Rightarrow>
          (case rounds_states sample k s' g' of
             Inl e \<Rightarrow> Inl e
           | Inr (ss, g'') \<Rightarrow> Inr (s' # ss, g'')))"

text \<open>
  The engine states after every round of every repetition, in order: each repetition
  starts from the engine built on the uniform load vector and goes on with the generator
  the repetition before it left.
\<close>

fun experiment_states ::
  "'h operator_new \<Rightarrow> 'g uniform_int_distribution \<Rightarrow> nat \<Rightarrow> size_t \<Rightarrow> size_t \<Rightarrow> nat \<Rightarrow> 'h \<Rightarrow> 'g
     \<Rightarrow> fault + RepeatedBallsIntoBins list" where
  "experiment_states allocate sample 0 num_bins num_balls rounds h g = Inr []"
| "experiment_states allocate sample (Suc reps) num_bins num_balls rounds h g =
     (case generate_uniform_vector allocate h num_bins num_balls of
        Inl e \<Rightarrow> Inl e
      | Inr (lv, h1) \<Rightarrow>
          (case copy_vector_storage allocate h1 lv of
             Inl e \<Rightarrow> Inl e
           | Inr h2 \<Rightarrow>
               (case rounds_states sample rounds (RepeatedBallsIntoBins_ctor lv) g of
                  Inl e \<Rightarrow> Inl e
                | Inr (ss, g') \<Rightarrow>
                    (case experiment_states allocate sample reps num_bins num_balls rounds h2 g' of
                       Inl e \<Rightarrow> Inl e
                     | Inr rest \<Rightarrow> Inr (ss @ rest)))))"

section \<open>Arithmetic of \<open>size_t\<close>\<close>

lemma unat_bound: "unat (w :: size_t) < 2 ^ 64"
  using unsigned_less [of w] by simp

lemma unat_inc: "unat (w :: size_t) + 1 < 2 ^ 64 \<Longrightarrow> unat (w + 1) = unat w + 1"
  using unat_add_lem [of w 1] by simp

lemma unat_inc_less: "i < (n :: size_t) \<Longrightarrow> unat (i + 1) = unat i + 1"
proof -
  assume "i < n"
  then have "unat i < unat n" by (simp add: word_less_nat_alt)
  moreover have "unat n < 2 ^ 64" by (rule unat_bound)
  ultimately show ?thesis by (intro unat_inc) simp
qed

lemma unat_size: "n < 2 ^ 64 \<Longrightarrow> unat (of_nat n :: size_t) = n"
  by (simp add: unat_of_nat)

lemma unat_of_int_counter:
  "0 \<le> j \<Longrightarrow> j \<le> INT_MAX \<Longrightarrow> unat (of_int j :: size_t) = nat j"
proof -
  assume j: "0 \<le> j" "j \<le> INT_MAX"
  then have "nat j < 2 ^ 64"
    by (simp add: INT_MAX_def nat_less_iff)
  then have "unat (of_nat (nat j) :: size_t) = nat j"
    by (rule unat_size)
  with j show ?thesis by simp
qed

lemma unat_vector_size: "vector_fits lv \<Longrightarrow> unat (vector_size lv) = length lv"
  by (simp add: vector_fits_def vector_size_def unat_size)

section \<open>Sums, maxima and counts over the load vector\<close>

lemma max_entry_Nil: "max_entry [] = 0"
  by (simp add: max_entry_def)

lemma max_entry_Cons: "max_entry (x # xs) = max x (max_entry xs)"
proof -
  have "insert 0 (set (x # xs)) = insert x (insert 0 (set xs))"
    by auto
  then show ?thesis
    by (simp add: max_entry_def)
qed

lemma max_entry_nonempty: "lv \<noteq> [] \<Longrightarrow> max_entry lv = Max (set lv)"
  by (simp add: max_entry_def)

lemma count_empty_Nil: "count_empty [] = 0"
  by (simp add: count_empty_def)

lemma count_empty_Cons: "count_empty (x # xs) = (if x = 0 then 1 else 0) + count_empty xs"
  by (simp add: count_empty_def)

lemma total_balls_Nil: "total_balls [] = 0"
  by (simp add: total_balls_def)

lemma total_balls_Cons: "total_balls (x # xs) = unat x + total_balls xs"
  by (simp add: total_balls_def)

lemma count_empty_le: "count_empty lv \<le> length lv"
  by (simp add: count_empty_def)

lemma max_entry_update:
  "i < length lv \<Longrightarrow> lv ! i \<le> x \<Longrightarrow> max_entry (lv[i := x]) = max (max_entry lv) x"
proof (induction lv arbitrary: i)
  case Nil
  then show ?case by simp
next
  case (Cons a lv)
  show ?case
  proof (cases i)
    case 0
    with Cons.prems have "a \<le> x" by simp
    then have "max x (max_entry lv) = max (max a (max_entry lv)) x"
      by (auto simp: max_def)
    with 0 show ?thesis
      by (simp add: max_entry_Cons)
  next
    case (Suc k)
    with Cons show ?thesis
      by (simp add: max_entry_Cons max.assoc max.left_commute)
  qed
qed

lemma count_empty_update:
  "i < length lv \<Longrightarrow> x \<noteq> 0 \<Longrightarrow>
     count_empty (lv[i := x]) + (if lv ! i = 0 then 1 else 0) = count_empty lv"
proof (induction lv arbitrary: i)
  case Nil
  then show ?case by simp
next
  case (Cons a lv)
  then show ?case
    by (cases i) (simp_all add: count_empty_Cons)
qed

lemma total_balls_update:
  "i < length lv \<Longrightarrow> total_balls (lv[i := x]) + unat (lv ! i) = total_balls lv + unat x"
proof (induction lv arbitrary: i)
  case Nil
  then show ?case by simp
next
  case (Cons a lv)
  then show ?case
    by (cases i) (simp_all add: total_balls_Cons)
qed

lemma entry_le_total: "i < length lv \<Longrightarrow> unat (lv ! i) \<le> total_balls lv"
proof (induction lv arbitrary: i)
  case Nil
  then show ?case by simp
next
  case (Cons a lv)
  then show ?case
    by (cases i) (simp_all add: total_balls_Cons trans_le_add2)
qed

lemma unat_remove_one: "unat (remove_one v) = unat v - 1"
  by (simp add: remove_one_def unat_minus_one word_gt_0)

lemma remove_one_le: "remove_one v \<le> v"
  by (simp add: word_le_nat_alt unat_remove_one)

lemma total_balls_remove_one:
  "total_balls (map remove_one lv) + (length lv - count_empty lv) = total_balls lv"
proof (induction lv)
  case Nil
  then show ?case by (simp add: total_balls_Nil)
next
  case (Cons a lv)
  have le: "count_empty lv \<le> length lv" by (rule count_empty_le)
  show ?case
  proof (cases "a = 0")
    case True
    with Cons le show ?thesis
      by (simp add: total_balls_Cons count_empty_Cons unat_remove_one)
  next
    case False
    then have "0 < unat a" by (simp add: unat_gt_0)
    with False Cons le show ?thesis
      by (simp add: total_balls_Cons count_empty_Cons unat_remove_one Suc_diff_le)
  qed
qed

lemma max_entry_zero: "max m (0 :: size_t) = m"
  by (simp add: max_def)

lemma unat_count_empty:
  "vector_fits lv \<Longrightarrow> unat (of_nat (count_empty lv) :: size_t) = count_empty lv"
proof -
  assume "vector_fits lv"
  then have "count_empty lv < 2 ^ 64"
    using count_empty_le [of lv] by (simp add: vector_fits_def)
  then show ?thesis by (rule unat_size)
qed

lemma count_empty_card: "count_empty lv = card {i. i < length lv \<and> lv ! i = 0}"
  by (simp add: count_empty_def length_filter_conv_card)

lemma count_nonempty_eq: "count_nonempty lv = length lv - count_empty lv"
proof -
  have "length (filter (\<lambda>v. v = 0) lv) + length (filter (\<lambda>v. \<not> v = 0) lv) = length lv"
    by (rule sum_length_filter_compl)
  then show ?thesis
    by (simp add: count_nonempty_def count_empty_def word_gt_0)
qed

lemma count_empty_replicate_zero: "count_empty (replicate n 0) = n"
  by (simp add: count_empty_def)

lemma max_entry_replicate_zero: "max_entry (replicate n 0) = 0"
  by (induction n) (simp_all add: max_entry_Nil max_entry_Cons)

lemma remove_one_zero: "remove_one 0 = 0"
  by (simp add: remove_one_def)

lemma total_balls_replicate: "total_balls (replicate n x) = n * unat x"
  by (induction n) (simp_all add: total_balls_Nil total_balls_Cons)

lemma total_balls_append: "total_balls (xs @ ys) = total_balls xs + total_balls ys"
  by (simp add: total_balls_def)

section \<open>Construction\<close>

lemma ctor_scan_fields:
  "load_vector (ctor_scan xs s) = load_vector s \<and>
   bin_uar (ctor_scan xs s) = bin_uar s \<and>
   max_load (ctor_scan xs s) = max (max_load s) (max_entry xs) \<and>
   num_empty_bins (ctor_scan xs s) = num_empty_bins s + of_nat (count_empty xs)"
proof (induction xs arbitrary: s)
  case Nil
  show ?case
    by (simp add: max_entry_Nil count_empty_Nil max_entry_zero)
next
  case (Cons val rest)
  show ?case
    by (simp add: Cons.IH max_entry_Cons count_empty_Cons bool_to_size_t_def max.assoc)
qed

lemma ctor_fields:
  "load_vector (RepeatedBallsIntoBins_ctor lv) = lv"
  "bin_uar (RepeatedBallsIntoBins_ctor lv) = (0, vector_size lv - 1)"
  "max_load (RepeatedBallsIntoBins_ctor lv) = max_entry lv"
  "num_empty_bins (RepeatedBallsIntoBins_ctor lv) = of_nat (count_empty lv)"
  by (simp_all add: RepeatedBallsIntoBins_ctor_def ctor_scan_fields max_def)

lemma ctor_consistent: "vector_fits lv \<Longrightarrow> stats_consistent (RepeatedBallsIntoBins_ctor lv)"
  by (simp add: stats_consistent_def ctor_fields unat_count_empty)

lemma ctor_bin_uar_fixed: "bin_uar_fixed (RepeatedBallsIntoBins_ctor lv)"
  by (simp add: bin_uar_fixed_def ctor_fields)

lemma ctor_single:
  "m \<noteq> 0 \<Longrightarrow> RepeatedBallsIntoBins_ctor [m] =
     \<lparr>load_vector = [m], num_empty_bins = 0, max_load = m, bin_uar = (0, 0)\<rparr>"
  by (simp add: RepeatedBallsIntoBins_ctor_def vector_size_def bool_to_size_t_def max_def)

section \<open>Phase 1\<close>

lemma load_vector_collect_bin:
  "load_vector (collect_bin i s) = (load_vector s)[i := remove_one (load_vector s ! i)]"
  by (simp add: collect_bin_def remove_one_def Let_def)

lemma max_load_collect_bin:
  "i < length (load_vector s) \<Longrightarrow>
     max_load (collect_bin i s) = max (max_load s) (remove_one (load_vector s ! i))"
  by (simp add: collect_bin_def remove_one_def Let_def)

lemma num_empty_bins_collect_bin:
  "i < length (load_vector s) \<Longrightarrow>
     num_empty_bins (collect_bin i s) =
       num_empty_bins s + bool_to_size_t (remove_one (load_vector s ! i) = 0)"
  by (simp add: collect_bin_def remove_one_def Let_def)

lemma bin_uar_collect_bin: "bin_uar (collect_bin i s) = bin_uar s"
  by (simp add: collect_bin_def Let_def)

lemma phase1_scan:
  "unat n = length (load_vector s) \<Longrightarrow>
     \<exists>s'. phase1 i n s = Inr s' \<and>
       load_vector s' =
         take (unat i) (load_vector s) @ map remove_one (drop (unat i) (load_vector s)) \<and>
       max_load s' =
         max (max_load s) (max_entry (map remove_one (drop (unat i) (load_vector s)))) \<and>
       num_empty_bins s' =
         num_empty_bins s + of_nat (count_empty (map remove_one (drop (unat i) (load_vector s)))) \<and>
       bin_uar s' = bin_uar s"
proof (induction i n s rule: phase1.induct)
  case (1 i n s)
  let ?lv = "load_vector s"
  let ?k = "unat i"
  show ?case
  proof (cases "i < n")
    case False
    then have "length ?lv \<le> ?k"
      using "1.prems" by (simp add: word_less_nat_alt)
    with False show ?thesis
      by (subst phase1.simps) (simp add: max_entry_Nil count_empty_Nil max_entry_zero)
  next
    case True
    then have k: "?k < length ?lv"
      using "1.prems" by (simp add: word_less_nat_alt)
    have suc: "unat (i + 1) = Suc ?k"
      using True by (simp add: unat_inc_less)
    let ?r = "remove_one (?lv ! ?k)"
    let ?s1 = "collect_bin ?k s"
    have lv1: "load_vector ?s1 = ?lv[?k := ?r]"
      by (rule load_vector_collect_bin)
    have len1: "unat n = length (load_vector ?s1)"
      using "1.prems" by (simp add: lv1)
    from "1.IH" [OF True k len1] obtain s' where
      run: "phase1 (i + 1) n ?s1 = Inr s'" and
      lv': "load_vector s' = take (unat (i + 1)) (load_vector ?s1) @
              map remove_one (drop (unat (i + 1)) (load_vector ?s1))" and
      mx': "max_load s' = max (max_load ?s1)
              (max_entry (map remove_one (drop (unat (i + 1)) (load_vector ?s1))))" and
      ne': "num_empty_bins s' = num_empty_bins ?s1 +
              of_nat (count_empty (map remove_one (drop (unat (i + 1)) (load_vector ?s1))))" and
      bu': "bin_uar s' = bin_uar ?s1"
      by blast
    have dr: "drop ?k ?lv = ?lv ! ?k # drop (Suc ?k) ?lv"
      using k by (simp add: Cons_nth_drop_Suc)
    have tk: "take (Suc ?k) (?lv[?k := ?r]) = take ?k ?lv @ [?r]"
      using k by (simp add: take_Suc_conv_app_nth)
    have "phase1 i n s = Inr s'"
      using True k run by (subst phase1.simps) simp
    moreover have "load_vector s' = take ?k ?lv @ map remove_one (drop ?k ?lv)"
      using lv' by (simp add: lv1 suc dr tk)
    moreover have "max_load s' = max (max_load s) (max_entry (map remove_one (drop ?k ?lv)))"
      using mx' k by (simp add: lv1 suc dr max_load_collect_bin max_entry_Cons max.assoc)
    moreover have "num_empty_bins s' =
        num_empty_bins s + of_nat (count_empty (map remove_one (drop ?k ?lv)))"
      using ne' k
      by (simp add: lv1 suc dr num_empty_bins_collect_bin count_empty_Cons bool_to_size_t_def)
    moreover have "bin_uar s' = bin_uar s"
      using bu' by (simp add: bin_uar_collect_bin)
    ultimately show ?thesis
      by blast
  qed
qed

lemma phase1_result:
  assumes "vector_fits (load_vector s)"
  shows "\<exists>s1. phase1 0 (vector_size (load_vector s)) (s\<lparr>max_load := 0, num_empty_bins := 0\<rparr>) = Inr s1 \<and>
           load_vector s1 = map remove_one (load_vector s) \<and>
           stats_consistent s1 \<and> bin_uar s1 = bin_uar s"
proof -
  let ?s0 = "s\<lparr>max_load := 0, num_empty_bins := 0\<rparr>"
  have "unat (vector_size (load_vector s)) = length (load_vector ?s0)"
    using assms by (simp add: unat_vector_size)
  from phase1_scan [OF this, of 0] obtain s1 where
    run: "phase1 0 (vector_size (load_vector s)) ?s0 = Inr s1" and
    lv: "load_vector s1 = map remove_one (load_vector s)" and
    mx: "max_load s1 = max_entry (map remove_one (load_vector s))" and
    ne: "num_empty_bins s1 = of_nat (count_empty (map remove_one (load_vector s)))" and
    bu: "bin_uar s1 = bin_uar s"
    by (auto simp: max_def)
  have "vector_fits (map remove_one (load_vector s))"
    using assms by (simp add: vector_fits_def)
  then have "unat (num_empty_bins s1) = count_empty (map remove_one (load_vector s))"
    unfolding ne by (rule unat_count_empty)
  with run lv mx bu show ?thesis
    by (simp add: stats_consistent_def)
qed

lemma phase1_frame:
  "phase1 i n s = Inr s' \<Longrightarrow>
     length (load_vector s') = length (load_vector s) \<and> bin_uar s' = bin_uar s"
proof (induction i n s rule: phase1.induct)
  case (1 i n s)
  show ?case
  proof (cases "i < n \<and> unat i < length (load_vector s)")
    case False
    with "1.prems" show ?thesis
      by (subst (asm) phase1.simps) (auto split: if_splits)
  next
    case True
    with "1.prems" have "phase1 (i + 1) n (collect_bin (unat i) s) = Inr s'"
      by (subst (asm) phase1.simps) simp
    with True "1.IH" show ?thesis
      by (simp add: load_vector_collect_bin bin_uar_collect_bin)
  qed
qed

lemma phase1_single:
  assumes "m \<noteq> 0"
  shows "phase1 0 1 \<lparr>load_vector = [m], num_empty_bins = 0, max_load = 0, bin_uar = (0, 0)\<rparr> =
     Inr \<lparr>load_vector = [m - 1], num_empty_bins = bool_to_size_t (m = 1),
          max_load = m - 1, bin_uar = (0, 0)\<rparr>"
proof -
  have "phase1 (0 + 1) 1 s = Inr s" for s
    by (subst phase1.simps) simp
  with assms show ?thesis
    by (subst phase1.simps) (simp add: collect_bin_def word_gt_0 max_def)
qed

section \<open>Phase 2\<close>

lemma load_vector_allocate_ball:
  "load_vector (allocate_ball i s) = (load_vector s)[i := load_vector s ! i + 1]"
  by (simp add: allocate_ball_def Let_def)

lemma max_load_allocate_ball:
  "i < length (load_vector s) \<Longrightarrow>
     max_load (allocate_ball i s) = max (max_load s) (load_vector s ! i + 1)"
  by (simp add: allocate_ball_def Let_def)

lemma num_empty_bins_allocate_ball:
  "i < length (load_vector s) \<Longrightarrow>
     num_empty_bins (allocate_ball i s) =
       num_empty_bins s - bool_to_size_t (load_vector s ! i + 1 = 1)"
  by (simp add: allocate_ball_def Let_def)

lemma bin_uar_allocate_ball: "bin_uar (allocate_ball i s) = bin_uar s"
  by (simp add: allocate_ball_def Let_def)

lemma allocate_ball_step:
  assumes i: "i < length (load_vector s)"
    and inv: "stats_consistent s"
    and room: "total_balls (load_vector s) + 1 < 2 ^ 64"
  shows "stats_consistent (allocate_ball i s)"
    and "total_balls (load_vector (allocate_ball i s)) = total_balls (load_vector s) + 1"
proof -
  let ?lv = "load_vector s"
  let ?x = "?lv ! i + 1"
  have "unat (?lv ! i) \<le> total_balls ?lv"
    using i by (rule entry_le_total)
  with room have ux: "unat ?x = unat (?lv ! i) + 1"
    by (intro unat_inc) simp
  then have le: "?lv ! i \<le> ?x" and nz: "?x \<noteq> 0"
    by (auto simp: word_le_nat_alt simp flip: unat_0_iff)
  have one: "?x = 1 \<longleftrightarrow> ?lv ! i = 0"
    using ux by (auto simp flip: unat_0_iff simp: word_unat_eq_iff [of ?x 1])
  have mx: "max_entry (?lv[i := ?x]) = max (max_entry ?lv) ?x"
    using i le by (rule max_entry_update)
  have ct: "count_empty (?lv[i := ?x]) + (if ?lv ! i = 0 then 1 else 0) = count_empty ?lv"
    using i nz by (rule count_empty_update)
  have ne: "unat (num_empty_bins s - bool_to_size_t (?x = 1)) = count_empty (?lv[i := ?x])"
  proof (cases "?lv ! i = 0")
    case True
    with ct have pos: "count_empty ?lv = count_empty (?lv[i := ?x]) + 1"
      by simp
    with inv have "num_empty_bins s \<noteq> 0"
      by (auto simp: stats_consistent_def)
    then have "unat (num_empty_bins s - 1) = unat (num_empty_bins s) - 1"
      by (rule unat_minus_one)
    with True one inv pos show ?thesis
      by (simp add: bool_to_size_t_def stats_consistent_def)
  next
    case False
    with one ct inv show ?thesis
      by (simp add: bool_to_size_t_def stats_consistent_def)
  qed
  show "stats_consistent (allocate_ball i s)"
    using inv i mx ne
    by (simp add: stats_consistent_def load_vector_allocate_ball max_load_allocate_ball
        num_empty_bins_allocate_ball)
  have "total_balls (?lv[i := ?x]) + unat (?lv ! i) = total_balls ?lv + unat ?x"
    using i by (rule total_balls_update)
  with ux show "total_balls (load_vector (allocate_ball i s)) = total_balls ?lv + 1"
    by (simp add: load_vector_allocate_ball)
qed

lemma phase2_invariant:
  assumes "phase2 sample b j s g = Inr (s', g')"
    and "0 \<le> j" and "j \<le> INT_MAX"
    and "stats_consistent s"
    and "total_balls (load_vector s) + (unat b - nat j) < 2 ^ 64"
  shows "stats_consistent s' \<and>
         total_balls (load_vector s') = total_balls (load_vector s) + (unat b - nat j) \<and>
         length (load_vector s') = length (load_vector s) \<and>
         bin_uar s' = bin_uar s"
  using assms
proof (induction sample b j s g rule: phase2.induct)
  case (1 sample b j s g)
  have conv: "unat (of_int j :: size_t) = nat j"
    using "1.prems"(2,3) by (rule unat_of_int_counter)
  show ?case
  proof (cases "(of_int j :: size_t) < b")
    case False
    then have "unat b - nat j = 0"
      by (simp add: word_less_nat_alt conv)
    moreover from False "1.prems"(1) have "s' = s"
      by (subst (asm) phase2.simps) simp
    ultimately show ?thesis
      using "1.prems"(4) by simp
  next
    case True
    then have lt: "nat j < unat b"
      by (simp add: word_less_nat_alt conv)
    let ?i = "unat (fst (sample (bin_uar s) g))"
    let ?s1 = "allocate_ball ?i s"
    let ?g1 = "snd (sample (bin_uar s) g)"
    have step: "phase2 sample b j s g =
        (if ?i < length (load_vector s) then
           (if j + 1 > INT_MAX then Inl SignedOverflow else phase2 sample b (j + 1) ?s1 ?g1)
         else Inl IndexOutOfRange)"
      using True by (subst phase2.simps) simp
    have i: "?i < length (load_vector s)"
      using "1.prems"(1) unfolding step by (simp split: if_splits)
    have j1: "\<not> INT_MAX < j + 1"
      using i "1.prems"(1) unfolding step by (simp split: if_splits)
    have run: "phase2 sample b (j + 1) ?s1 ?g1 = Inr (s', g')"
      using i j1 "1.prems"(1) unfolding step by simp
    have room: "total_balls (load_vector s) + 1 < 2 ^ 64"
      using lt "1.prems"(5) by simp
    have inv1: "stats_consistent ?s1"
      and tot1: "total_balls (load_vector ?s1) = total_balls (load_vector s) + 1"
      using allocate_ball_step [OF i "1.prems"(4) room] by simp_all
    have rest: "unat b - nat (j + 1) + 1 = unat b - nat j"
      using lt "1.prems"(2) by (simp add: nat_add_distrib)
    have room1: "total_balls (load_vector ?s1) + (unat b - nat (j + 1)) < 2 ^ 64"
      using "1.prems"(5) tot1 rest by simp
    have "stats_consistent s' \<and>
         total_balls (load_vector s') = total_balls (load_vector ?s1) + (unat b - nat (j + 1)) \<and>
         length (load_vector s') = length (load_vector ?s1) \<and>
         bin_uar s' = bin_uar ?s1"
      using "1.IH" [OF True i j1 run] "1.prems"(2) j1 inv1 room1 by simp
    then show ?thesis
      using tot1 rest
      by (simp add: load_vector_allocate_ball bin_uar_allocate_ball)
  qed
qed

lemma unat_balls_to_allocate:
  assumes "vector_fits (load_vector s)"
    and "unat (num_empty_bins s) = count_empty (load_vector s)"
  shows "unat (balls_to_allocate s) = length (load_vector s) - count_empty (load_vector s)"
proof -
  have "unat (num_empty_bins s) \<le> unat (vector_size (load_vector s))"
    using assms count_empty_le [of "load_vector s"] by (simp add: unat_vector_size)
  then have "num_empty_bins s \<le> vector_size (load_vector s)"
    by (simp add: word_le_nat_alt)
  then have "unat (vector_size (load_vector s) - num_empty_bins s) =
      unat (vector_size (load_vector s)) - unat (num_empty_bins s)"
    by (rule unat_sub)
  with assms show ?thesis
    by (simp add: balls_to_allocate_def unat_vector_size)
qed

lemma sample_in_range:
  assumes "uniform_int_contract sample" and "bin_uar_fixed s"
    and "load_vector s \<noteq> []" and "vector_fits (load_vector s)"
  shows "unat (fst (sample (bin_uar s) g)) < length (load_vector s)"
proof -
  let ?n = "vector_size (load_vector s)"
  have "fst (sample (0, ?n - 1) g) \<le> ?n - 1"
    using assms(1) by (simp add: uniform_int_contract_def)
  then have "unat (fst (sample (bin_uar s) g)) \<le> unat (?n - 1)"
    using assms(2) by (simp add: bin_uar_fixed_def word_le_nat_alt)
  moreover have "?n \<noteq> 0"
    using assms(3,4) unat_vector_size [of "load_vector s"] by (auto simp flip: unat_0_iff)
  then have "unat (?n - 1) = unat ?n - 1"
    by (rule unat_minus_one)
  moreover have "unat ?n = length (load_vector s)"
    using assms(4) by (rule unat_vector_size)
  moreover have "0 < length (load_vector s)"
    using assms(3) by simp
  ultimately show ?thesis
    by linarith
qed

lemma bin_uar_fixed_allocate_ball: "bin_uar_fixed s \<Longrightarrow> bin_uar_fixed (allocate_ball i s)"
  by (simp add: bin_uar_fixed_def bin_uar_allocate_ball load_vector_allocate_ball vector_size_def)

lemma phase2_completes:
  assumes "uniform_int_contract sample" and "bin_uar_fixed s"
    and "load_vector s \<noteq> []" and "vector_fits (load_vector s)"
    and "0 \<le> j" and "j \<le> INT_MAX" and "unat b \<le> nat INT_MAX"
  shows "\<exists>s' g'. phase2 sample b j s g = Inr (s', g')"
  using assms
proof (induction sample b j s g rule: phase2.induct)
  case (1 sample b j s g)
  have conv: "unat (of_int j :: size_t) = nat j"
    using "1.prems"(5,6) by (rule unat_of_int_counter)
  show ?case
  proof (cases "(of_int j :: size_t) < b")
    case False
    then show ?thesis by (subst phase2.simps) simp
  next
    case True
    then have lt: "nat j < unat b"
      by (simp add: word_less_nat_alt conv)
    let ?i = "unat (fst (sample (bin_uar s) g))"
    have i: "?i < length (load_vector s)"
      using "1.prems"(1-4) by (rule sample_in_range)
    have j1: "\<not> INT_MAX < j + 1"
      using lt "1.prems"(5,7) by linarith
    have "\<exists>s' g'. phase2 sample b (j + 1) (allocate_ball ?i s) (snd (sample (bin_uar s) g)) = Inr (s', g')"
      using "1.IH" [OF True i j1] "1.prems" j1
      by (simp add: bin_uar_fixed_allocate_ball load_vector_allocate_ball vector_fits_def)
    with True i j1 show ?thesis by (subst phase2.simps) simp
  qed
qed

lemma phase2_in_bounds:
  assumes "uniform_int_contract sample" and "bin_uar_fixed s"
    and "load_vector s \<noteq> []" and "vector_fits (load_vector s)"
  shows "phase2 sample b j s g \<noteq> Inl IndexOutOfRange"
  using assms
proof (induction sample b j s g rule: phase2.induct)
  case (1 sample b j s g)
  let ?i = "unat (fst (sample (bin_uar s) g))"
  have i: "?i < length (load_vector s)"
    using "1.prems"(1-4) by (rule sample_in_range)
  show ?case
  proof (cases "(of_int j :: size_t) < b \<and> \<not> INT_MAX < j + 1")
    case False
    with i show ?thesis by (subst phase2.simps) auto
  next
    case True
    then have "phase2 sample b (j + 1) (allocate_ball ?i s) (snd (sample (bin_uar s) g)) \<noteq> Inl IndexOutOfRange"
      using "1.IH" [OF _ i] "1.prems"
      by (simp add: bin_uar_fixed_allocate_ball load_vector_allocate_ball vector_fits_def)
    with True i show ?thesis by (subst phase2.simps) simp
  qed
qed

lemma phase2_frame:
  "phase2 sample b j s g = Inr (s', g') \<Longrightarrow>
     length (load_vector s') = length (load_vector s) \<and> bin_uar s' = bin_uar s"
proof (induction sample b j s g rule: phase2.induct)
  case (1 sample b j s g)
  let ?i = "unat (fst (sample (bin_uar s) g))"
  show ?case
  proof (cases "(of_int j :: size_t) < b \<and> ?i < length (load_vector s) \<and> \<not> INT_MAX < j + 1")
    case False
    with "1.prems" show ?thesis
      by (subst (asm) phase2.simps) (auto split: if_splits)
  next
    case True
    with "1.prems" have
      "phase2 sample b (j + 1) (allocate_ball ?i s) (snd (sample (bin_uar s) g)) = Inr (s', g')"
      by (subst (asm) phase2.simps) simp
    with True "1.IH" show ?thesis
      by (simp add: load_vector_allocate_ball bin_uar_allocate_ball)
  qed
qed

lemma phase2_counter_overflows:
  assumes "uniform_int_contract sample" and "bin_uar_fixed s"
    and "load_vector s \<noteq> []" and "vector_fits (load_vector s)"
    and "0 \<le> j" and "j \<le> INT_MAX" and "nat INT_MAX < unat b"
  shows "phase2 sample b j s g = Inl SignedOverflow"
  using assms
proof (induction sample b j s g rule: phase2.induct)
  case (1 sample b j s g)
  have conv: "unat (of_int j :: size_t) = nat j"
    using "1.prems"(5,6) by (rule unat_of_int_counter)
  have lt: "(of_int j :: size_t) < b"
    using "1.prems"(6,7) by (simp add: word_less_nat_alt conv)
  let ?i = "unat (fst (sample (bin_uar s) g))"
  have i: "?i < length (load_vector s)"
    using "1.prems"(1-4) by (rule sample_in_range)
  show ?case
  proof (cases "INT_MAX < j + 1")
    case True
    with lt i show ?thesis
      by (subst phase2.simps) simp
  next
    case False
    then have "phase2 sample b (j + 1) (allocate_ball ?i s) (snd (sample (bin_uar s) g)) =
        Inl SignedOverflow"
      using "1.IH" [OF lt i False] "1.prems"
      by (simp add: bin_uar_fixed_allocate_ball load_vector_allocate_ball vector_fits_def)
    with lt i False show ?thesis
      by (subst phase2.simps) simp
  qed
qed

lemma scripted_contract: "uniform_int_contract scripted"
proof -
  have "a \<le> fst (scripted (a, b) g) \<and> fst (scripted (a, b) g) \<le> b" if "a \<le> b" for a b g
    using that by (cases g) simp_all
  then show ?thesis
    by (simp add: uniform_int_contract_def)
qed

lemma sample_single:
  "uniform_int_contract sample \<Longrightarrow> fst (sample (0, 0) g) = 0"
proof -
  assume "uniform_int_contract sample"
  then have "(0 :: size_t) \<le> 0 \<longrightarrow>
      0 \<le> fst (sample (0, 0) g) \<and> fst (sample (0, 0) g) \<le> 0"
    unfolding uniform_int_contract_def by blast
  then show ?thesis by simp
qed

lemma phase2_single:
  assumes "m \<noteq> 0" and "uniform_int_contract sample"
  shows "phase2 sample 1 0 \<lparr>load_vector = [m - 1], num_empty_bins = bool_to_size_t (m = 1),
          max_load = m - 1, bin_uar = (0, 0)\<rparr> g =
     Inr (\<lparr>load_vector = [m], num_empty_bins = 0, max_load = m, bin_uar = (0, 0)\<rparr>,
          snd (sample (0, 0) g))"
proof -
  have stop: "phase2 sample 1 (0 + 1) s h = Inr (s, h)" for s h
    by (subst phase2.simps) simp
  have i: "fst (sample (0, 0) g) = 0"
    using assms(2) by (rule sample_single)
  have le: "m - 1 \<le> m"
    using assms(1) by (simp add: word_le_nat_alt unat_minus_one)
  show ?thesis
    using assms(1) i le stop
    by (subst phase2.simps)
      (simp add: allocate_ball_def INT_MAX_def bool_to_size_t_def max_def)
qed

section \<open>Rounds\<close>

lemma nextRound_frame:
  assumes "nextRound sample s g = Inr (s', g')"
  shows "length (load_vector s') = length (load_vector s) \<and> bin_uar s' = bin_uar s"
proof -
  let ?s0 = "s\<lparr>max_load := 0, num_empty_bins := 0\<rparr>"
  from assms obtain s1 where
    p1: "phase1 0 (vector_size (load_vector s)) ?s0 = Inr s1" and
    p2: "phase2 sample (balls_to_allocate s) 0 s1 g = Inr (s', g')"
    by (auto simp: nextRound_def Let_def split: sum.splits)
  from phase1_frame [OF p1] phase2_frame [OF p2] show ?thesis
    by simp
qed

lemma nextRound_preserves:
  assumes run: "nextRound sample s g = Inr (s', g')"
    and fits: "vector_fits (load_vector s)"
    and ne: "unat (num_empty_bins s) = count_empty (load_vector s)"
    and room: "total_balls (load_vector s) < 2 ^ 64"
  shows "stats_consistent s' \<and> total_balls (load_vector s') = total_balls (load_vector s)"
proof -
  let ?lv = "load_vector s"
  let ?s0 = "s\<lparr>max_load := 0, num_empty_bins := 0\<rparr>"
  from phase1_result [OF fits] obtain s1 where
    p1: "phase1 0 (vector_size ?lv) ?s0 = Inr s1" and
    lv1: "load_vector s1 = map remove_one ?lv" and
    inv1: "stats_consistent s1"
    by blast
  from run p1 have p2: "phase2 sample (balls_to_allocate s) 0 s1 g = Inr (s', g')"
    by (simp add: nextRound_def Let_def)
  have b: "unat (balls_to_allocate s) = length ?lv - count_empty ?lv"
    using fits ne by (rule unat_balls_to_allocate)
  have tot1: "total_balls (load_vector s1) + (length ?lv - count_empty ?lv) = total_balls ?lv"
    unfolding lv1 by (rule total_balls_remove_one)
  have "total_balls (load_vector s1) + (unat (balls_to_allocate s) - nat 0) < 2 ^ 64"
    using room tot1 b by simp
  from phase2_invariant [OF p2 _ _ inv1 this]
  have "stats_consistent s' \<and>
        total_balls (load_vector s') =
          total_balls (load_vector s1) + (unat (balls_to_allocate s) - nat 0)"
    by (simp add: INT_MAX_def)
  with tot1 b show ?thesis by simp
qed

lemma nextRound_completes:
  assumes "uniform_int_contract sample" and "bin_uar_fixed s"
    and "load_vector s \<noteq> []" and "vector_fits (load_vector s)"
    and "unat (balls_to_allocate s) \<le> nat INT_MAX"
  shows "\<exists>s' g'. nextRound sample s g = Inr (s', g')"
proof -
  let ?s0 = "s\<lparr>max_load := 0, num_empty_bins := 0\<rparr>"
  from phase1_result [OF assms(4)] obtain s1 where
    p1: "phase1 0 (vector_size (load_vector s)) ?s0 = Inr s1" and
    lv1: "load_vector s1 = map remove_one (load_vector s)" and
    bu1: "bin_uar s1 = bin_uar s"
    by blast
  have "bin_uar_fixed s1"
    using assms(2) by (simp add: bin_uar_fixed_def lv1 bu1 vector_size_def)
  moreover have "load_vector s1 \<noteq> []" "vector_fits (load_vector s1)"
    using assms(3,4) by (simp_all add: lv1 vector_fits_def)
  ultimately have "\<exists>s' g'. phase2 sample (balls_to_allocate s) 0 s1 g = Inr (s', g')"
    using assms(1,5) by (intro phase2_completes) (simp_all add: INT_MAX_def)
  with p1 show ?thesis
    by (simp add: nextRound_def Let_def)
qed

lemma nextRound_in_bounds:
  assumes "uniform_int_contract sample" and "bin_uar_fixed s"
    and "load_vector s \<noteq> []" and "vector_fits (load_vector s)"
  shows "nextRound sample s g \<noteq> Inl IndexOutOfRange"
proof -
  let ?s0 = "s\<lparr>max_load := 0, num_empty_bins := 0\<rparr>"
  from phase1_result [OF assms(4)] obtain s1 where
    p1: "phase1 0 (vector_size (load_vector s)) ?s0 = Inr s1" and
    lv1: "load_vector s1 = map remove_one (load_vector s)" and
    bu1: "bin_uar s1 = bin_uar s"
    by blast
  have "bin_uar_fixed s1"
    using assms(2) by (simp add: bin_uar_fixed_def lv1 bu1 vector_size_def)
  moreover have "load_vector s1 \<noteq> []" "vector_fits (load_vector s1)"
    using assms(3,4) by (simp_all add: lv1 vector_fits_def)
  ultimately have "phase2 sample (balls_to_allocate s) 0 s1 g \<noteq> Inl IndexOutOfRange"
    using assms(1) by (intro phase2_in_bounds)
  with p1 show ?thesis
    by (simp add: nextRound_def Let_def)
qed

lemma nextRound_single:
  assumes "m \<noteq> 0" and "uniform_int_contract sample"
  shows "nextRound sample (RepeatedBallsIntoBins_ctor [m]) g =
     Inr (RepeatedBallsIntoBins_ctor [m], snd (sample (0, 0) g))"
  using assms
  by (simp add: ctor_single nextRound_def balls_to_allocate_def vector_size_def
      phase1_single phase2_single)

lemma nextRounds_frame:
  "nextRounds sample k s g = Inr (s', g') \<Longrightarrow>
     length (load_vector s') = length (load_vector s) \<and> bin_uar s' = bin_uar s"
proof (induction k arbitrary: s g)
  case 0
  then show ?case by simp
next
  case (Suc k)
  from Suc.prems obtain t h where
    one: "nextRound sample s g = Inr (t, h)" and
    rest: "nextRounds sample k t h = Inr (s', g')"
    by (auto split: sum.splits)
  from nextRound_frame [OF one] Suc.IH [OF rest] show ?case
    by simp
qed

lemma nextRounds_preserves:
  "nextRounds sample k s g = Inr (s', g') \<Longrightarrow> vector_fits (load_vector s) \<Longrightarrow>
     stats_consistent s \<Longrightarrow> total_balls (load_vector s) < 2 ^ 64 \<Longrightarrow>
     stats_consistent s' \<and> total_balls (load_vector s') = total_balls (load_vector s)"
proof (induction k arbitrary: s g)
  case 0
  then show ?case by simp
next
  case (Suc k)
  from Suc.prems(1) obtain t h where
    one: "nextRound sample s g = Inr (t, h)" and
    rest: "nextRounds sample k t h = Inr (s', g')"
    by (auto split: sum.splits)
  from Suc.prems(3) have ne: "unat (num_empty_bins s) = count_empty (load_vector s)"
    by (simp add: stats_consistent_def)
  from nextRound_preserves [OF one Suc.prems(2) ne Suc.prems(4)]
  have inv: "stats_consistent t" and tot: "total_balls (load_vector t) = total_balls (load_vector s)"
    by simp_all
  from nextRound_frame [OF one] Suc.prems(2) have fits: "vector_fits (load_vector t)"
    by (simp add: vector_fits_def)
  from Suc.IH [OF rest fits inv] tot Suc.prems(4) show ?case
    by simp
qed

lemma nextRounds_from_ctor:
  assumes "nextRounds sample k (RepeatedBallsIntoBins_ctor lv) g = Inr (s', g')"
    and "vector_fits lv" and "total_balls lv < 2 ^ 64"
  shows "stats_consistent s' \<and> total_balls (load_vector s') = total_balls lv \<and>
         length (load_vector s') = length lv"
proof -
  let ?s = "RepeatedBallsIntoBins_ctor lv"
  have cons: "stats_consistent ?s"
    using assms(2) by (rule ctor_consistent)
  from nextRounds_preserves [OF assms(1) _ cons] assms(2,3)
  have "stats_consistent s' \<and> total_balls (load_vector s') = total_balls lv"
    by (simp add: ctor_fields)
  moreover from nextRounds_frame [OF assms(1)] have "length (load_vector s') = length lv"
    by (simp add: ctor_fields)
  ultimately show ?thesis
    by blast
qed

lemma nextRounds_single:
  assumes "m \<noteq> 0" and "uniform_int_contract sample"
  shows "\<exists>g'. nextRounds sample k (RepeatedBallsIntoBins_ctor [m]) g =
     Inr (RepeatedBallsIntoBins_ctor [m], g')"
proof (induction k arbitrary: g)
  case 0
  show ?case by simp
next
  case (Suc k)
  from Suc [of "snd (sample (0, 0) g)"] show ?case
    by (simp add: nextRound_single [OF assms])
qed

lemma nextRounds_in_bounds:
  assumes "uniform_int_contract sample"
  shows "bin_uar_fixed s \<Longrightarrow> load_vector s \<noteq> [] \<Longrightarrow> vector_fits (load_vector s) \<Longrightarrow>
     nextRounds sample k s g \<noteq> Inl IndexOutOfRange"
proof (induction k arbitrary: s g)
  case 0
  show ?case by simp
next
  case (Suc k)
  show ?case
  proof (cases "nextRound sample s g")
    case (Inl e)
    with nextRound_in_bounds [OF assms Suc.prems, of g] show ?thesis
      by simp
  next
    case (Inr p)
    obtain t h where p: "p = (t, h)" by (cases p)
    from nextRound_frame [OF Inr [unfolded p]]
    have len: "length (load_vector t) = length (load_vector s)" and bu: "bin_uar t = bin_uar s"
      by simp_all
    have "bin_uar_fixed t"
      using Suc.prems(1) len bu by (simp add: bin_uar_fixed_def vector_size_def)
    moreover have "load_vector t \<noteq> []" "vector_fits (load_vector t)"
      using Suc.prems(2,3) len by (auto simp: vector_fits_def)
    ultimately have "nextRounds sample k t h \<noteq> Inl IndexOutOfRange"
      by (rule Suc.IH)
    with Inr p show ?thesis by simp
  qed
qed

text \<open>
  With more than \<open>INT_MAX\<close> non-empty bins the round does not return: \<open>++j\<close> overflows
  before \<open>j\<close> reaches \<open>balls_to_allocate\<close>. This is why the theorems on \<open>nextRound\<close> speak
  of calls that return, and bound the number of non-empty bins where they say that the
  call returns.
\<close>

lemma nextRound_counter_overflows:
  assumes "uniform_int_contract sample" and "nat INT_MAX < n" and "n < 2 ^ 64"
  shows "nextRound sample (RepeatedBallsIntoBins_ctor (replicate n 1)) g = Inl SignedOverflow"
proof -
  let ?lv = "replicate n (1 :: size_t)"
  let ?s = "RepeatedBallsIntoBins_ctor ?lv"
  have fits: "vector_fits (load_vector ?s)"
    using assms(3) by (simp add: vector_fits_def ctor_fields)
  have pos: "0 < n"
    using assms(2) by simp
  have "count_empty ?lv = 0"
    by (simp add: count_empty_def)
  then have "balls_to_allocate ?s = of_nat n"
    by (simp add: balls_to_allocate_def ctor_fields vector_size_def)
  then have b: "unat (balls_to_allocate ?s) = n"
    using assms(3) by (simp add: unat_size)
  from phase1_result [OF fits] obtain s1 where
    p1: "phase1 0 (vector_size (load_vector ?s)) (?s\<lparr>max_load := 0, num_empty_bins := 0\<rparr>) = Inr s1" and
    lv1: "load_vector s1 = map remove_one (load_vector ?s)" and
    bu1: "bin_uar s1 = bin_uar ?s"
    by blast
  have "bin_uar_fixed s1"
    by (simp add: bin_uar_fixed_def lv1 bu1 ctor_fields vector_size_def)
  moreover have "load_vector s1 \<noteq> []" "vector_fits (load_vector s1)"
    using pos assms(3) by (simp_all add: lv1 ctor_fields vector_fits_def)
  ultimately have "phase2 sample (balls_to_allocate ?s) 0 s1 g = Inl SignedOverflow"
    using assms(1,2) b by (intro phase2_counter_overflows) (simp_all add: INT_MAX_def)
  with p1 show ?thesis
    by (simp add: nextRound_def Let_def)
qed

section \<open>The loop of \<open>generate_uniform_vector\<close>\<close>

lemma add_remainder_entries:
  "unat rem \<le> length lv \<Longrightarrow>
     \<exists>v. add_remainder i rem lv = Inr v \<and> length v = length lv \<and>
       (\<forall>k < length lv. v ! k = (if unat i \<le> k \<and> k < unat rem then lv ! k + 1 else lv ! k))"
proof (induction i rem lv rule: add_remainder.induct)
  case (1 i rem lv)
  show ?case
  proof (cases "i < rem")
    case False
    then have "\<not> (unat i \<le> k \<and> k < unat rem)" for k
      by (auto simp: word_less_nat_alt)
    with False show ?thesis
      by (subst add_remainder.simps) auto
  next
    case True
    then have lt: "unat i < unat rem"
      by (simp add: word_less_nat_alt)
    with "1.prems" have k: "unat i < length lv"
      by simp
    have suc: "unat (i + 1) = Suc (unat i)"
      using True by (simp add: unat_inc_less)
    let ?lv1 = "lv[unat i := lv ! unat i + 1]"
    from "1.IH" [OF True k] "1.prems" obtain v where
      run: "add_remainder (i + 1) rem ?lv1 = Inr v" and
      len: "length v = length lv" and
      ent: "\<forall>k < length lv. v ! k =
        (if unat (i + 1) \<le> k \<and> k < unat rem then ?lv1 ! k + 1 else ?lv1 ! k)"
      by auto
    have "add_remainder i rem lv = Inr v"
      using True k run by (subst add_remainder.simps) simp
    moreover have "v ! j = (if unat i \<le> j \<and> j < unat rem then lv ! j + 1 else lv ! j)"
      if "j < length lv" for j
    proof (cases "j = unat i")
      case True
      with ent that lt show ?thesis
        by (simp add: suc)
    next
      case False
      with ent that have "v ! j = (if Suc (unat i) \<le> j \<and> j < unat rem then lv ! j + 1 else lv ! j)"
        by (simp add: suc)
      with False show ?thesis
        by (auto simp: Suc_le_eq)
    qed
    ultimately show ?thesis
      using len by blast
  qed
qed

lemma add_remainder_uniform:
  assumes "num_bins \<noteq> 0"
  shows "add_remainder 0 (num_balls mod num_bins)
       (replicate (unat num_bins) (num_balls div num_bins)) =
     Inr (replicate (unat (num_balls mod num_bins)) (num_balls div num_bins + 1) @
          replicate (unat num_bins - unat (num_balls mod num_bins)) (num_balls div num_bins))"
proof -
  let ?q = "num_balls div num_bins"
  let ?r = "num_balls mod num_bins"
  let ?lv = "replicate (unat num_bins) ?q"
  have r: "unat ?r < unat num_bins"
    using assms by (simp add: unat_mod_distrib unat_gt_0)
  then have "unat ?r \<le> length ?lv"
    by simp
  from add_remainder_entries [OF this, of 0] obtain v where
    run: "add_remainder 0 ?r ?lv = Inr v" and len: "length v = unat num_bins" and
    ent: "\<forall>k < unat num_bins. v ! k = (if k < unat ?r then ?q + 1 else ?q)"
    by auto
  have "v = replicate (unat ?r) (?q + 1) @ replicate (unat num_bins - unat ?r) ?q"
  proof (rule nth_equalityI)
    show "length v = length (replicate (unat ?r) (?q + 1) @ replicate (unat num_bins - unat ?r) ?q)"
      using len r by simp
  next
    fix k
    assume "k < length v"
    with len ent r show
      "v ! k = (replicate (unat ?r) (?q + 1) @ replicate (unat num_bins - unat ?r) ?q) ! k"
      by (simp add: nth_append)
  qed
  with run show ?thesis
    by simp
qed

lemma quotient_plus_one:
  fixes num_bins num_balls :: size_t
  assumes "num_bins \<noteq> 0" and "num_balls mod num_bins \<noteq> 0"
  shows "unat (num_balls div num_bins + 1) = unat num_balls div unat num_bins + 1"
proof -
  have n: "0 < unat num_bins"
    using assms(1) by (simp add: unat_gt_0)
  have "0 < unat num_balls mod unat num_bins"
    using assms(2) by (simp add: unat_mod_distrib flip: unat_gt_0)
  moreover have "unat num_balls div unat num_bins * unat num_bins + unat num_balls mod unat num_bins =
      unat num_balls"
    by simp
  moreover have "unat num_balls div unat num_bins \<le> unat num_balls div unat num_bins * unat num_bins"
    using n by simp
  ultimately have "unat num_balls div unat num_bins < unat num_balls"
    by linarith
  moreover have "unat num_balls < 2 ^ 64"
    by (rule unat_bound)
  ultimately have "unat (num_balls div num_bins) + 1 < 2 ^ 64"
    by (simp add: unat_div_distrib)
  then show ?thesis
    by (simp add: unat_inc unat_div_distrib)
qed

lemma total_balls_uniform:
  fixes q :: size_t
  assumes "r < n" and "unat q = d" and "0 < r \<Longrightarrow> unat (q + 1) = d + 1"
  shows "total_balls (replicate r (q + 1) @ replicate (n - r) q) = n * d + r"
proof (cases "r = 0")
  case True
  with assms(2) show ?thesis
    by (simp add: total_balls_replicate total_balls_Nil)
next
  case False
  then have q1: "unat (q + 1) = d + 1"
    using assms(3) by simp
  obtain e where e: "n = r + e"
    using assms(1) less_imp_add_positive by blast
  then have "n - r = e" by simp
  then have "total_balls (replicate r (q + 1) @ replicate (n - r) q) = r * (d + 1) + e * d"
    by (simp add: total_balls_append total_balls_replicate q1 assms(2))
  also have "\<dots> = n * d + r"
    unfolding e by (simp add: algebra_simps)
  finally show ?thesis .
qed

lemma nth_uniform:
  "k < n \<Longrightarrow> r < n \<Longrightarrow>
     (replicate r a @ replicate (n - r) b) ! k = (if k < r then a else b)"
  by (simp add: nth_append)

section \<open>The cached maximum load\<close>

text \<open>
  Claim C1, as amended. After construction from any non-empty load vector the cached
  \<open>max_load\<close> is the largest entry of the load vector. From every engine state whose
  cached statistics are consistent and whose loads total less than \<open>2^64\<close> balls, every
  \<open>nextRound\<close> call that returns leaves \<open>max_load\<close> equal to the largest entry of the
  new load vector; and the call does return when the draws respect the distribution's
  range and at most \<open>INT_MAX\<close> bins are non-empty (the \<open>int\<close> counter of phase 2 does
  not overflow). So after any number \<open>k\<close> of rounds on an engine built from a non-empty
  vector of fewer than \<open>2^64\<close> balls, \<open>max_load\<close> is the largest entry.
\<close>

theorem max_load_consistency:
  "(lv \<noteq> [] \<longrightarrow> max_load (RepeatedBallsIntoBins_ctor lv) = Max (set lv)) \<and>
   (stats_consistent s \<and> load_vector s \<noteq> [] \<and> vector_fits (load_vector s) \<and>
    total_balls (load_vector s) < 2 ^ 64 \<longrightarrow>
      (nextRound sample s g = Inr (s', g') \<longrightarrow> max_load s' = Max (set (load_vector s'))) \<and>
      (uniform_int_contract sample \<and> bin_uar_fixed s \<and>
       count_nonempty (load_vector s) \<le> 2147483647 \<longrightarrow>
         (\<exists>t h. nextRound sample s g = Inr (t, h)))) \<and>
   (lv \<noteq> [] \<and> vector_fits lv \<and> total_balls lv < 2 ^ 64 \<and>
    nextRounds sample k (RepeatedBallsIntoBins_ctor lv) h = Inr (s'', h') \<longrightarrow>
      max_load s'' = Max (set (load_vector s'')))"
proof (intro conjI impI)
  assume "lv \<noteq> []"
  then show "max_load (RepeatedBallsIntoBins_ctor lv) = Max (set lv)"
    by (simp add: ctor_fields max_entry_nonempty)
next
  assume pre: "stats_consistent s \<and> load_vector s \<noteq> [] \<and> vector_fits (load_vector s) \<and>
    total_balls (load_vector s) < 2 ^ 64"
  assume run: "nextRound sample s g = Inr (s', g')"
  from pre have "unat (num_empty_bins s) = count_empty (load_vector s)"
    by (simp add: stats_consistent_def)
  with run pre have "stats_consistent s'"
    using nextRound_preserves [of sample s g s' g'] by simp
  moreover have "load_vector s' \<noteq> []"
    using nextRound_frame [OF run] pre by auto
  ultimately show "max_load s' = Max (set (load_vector s'))"
    by (simp add: stats_consistent_def max_entry_nonempty)
next
  assume pre: "stats_consistent s \<and> load_vector s \<noteq> [] \<and> vector_fits (load_vector s) \<and>
    total_balls (load_vector s) < 2 ^ 64"
  assume more: "uniform_int_contract sample \<and> bin_uar_fixed s \<and>
       count_nonempty (load_vector s) \<le> 2147483647"
  from pre have "unat (balls_to_allocate s) = count_nonempty (load_vector s)"
    unfolding count_nonempty_eq
    by (intro unat_balls_to_allocate) (simp_all add: stats_consistent_def)
  with more have "unat (balls_to_allocate s) \<le> nat INT_MAX"
    by (simp add: INT_MAX_def)
  with pre more show "\<exists>t h. nextRound sample s g = Inr (t, h)"
    by (intro nextRound_completes) simp_all
next
  assume many: "lv \<noteq> [] \<and> vector_fits lv \<and> total_balls lv < 2 ^ 64 \<and>
    nextRounds sample k (RepeatedBallsIntoBins_ctor lv) h = Inr (s'', h')"
  then have "stats_consistent s'' \<and> total_balls (load_vector s'') = total_balls lv \<and>
      length (load_vector s'') = length lv"
    by (intro nextRounds_from_ctor [of sample k lv h s'' h']) simp_all
  moreover from this many have "load_vector s'' \<noteq> []"
    by auto
  ultimately show "max_load s'' = Max (set (load_vector s''))"
    by (simp add: stats_consistent_def max_entry_nonempty)
qed

text \<open>
  The theorem at the load vector \<open>[0, 2, 5]\<close>. One round with the draws \<open>2\<close> and \<open>7\<close>
  (clamped to bin \<open>0\<close>): phase 1 leaves \<open>[0, 1, 4]\<close>, phase 2 gives \<open>[1, 1, 5]\<close>. A second
  round with the draws \<open>0, 1, 1\<close>: \<open>[0, 0, 4]\<close>, then \<open>[1, 2, 4]\<close>.
\<close>

theorem max_load_consistency_witness:
  "[0, 2, 5 :: size_t] \<noteq> [] \<and>
   max_load (RepeatedBallsIntoBins_ctor [0, 2, 5]) = Max (set [0, 2, 5]) \<and>
   stats_consistent (RepeatedBallsIntoBins_ctor [0, 2, 5]) \<and>
   load_vector (RepeatedBallsIntoBins_ctor [0, 2, 5]) \<noteq> [] \<and>
   vector_fits (load_vector (RepeatedBallsIntoBins_ctor [0, 2, 5])) \<and>
   total_balls (load_vector (RepeatedBallsIntoBins_ctor [0, 2, 5])) < 2 ^ 64 \<and>
   nextRound scripted (RepeatedBallsIntoBins_ctor [0, 2, 5]) [2, 7] =
     Inr (\<lparr>load_vector = [1, 1, 5], num_empty_bins = 0, max_load = 5, bin_uar = (0, 2)\<rparr>, []) \<and>
   max_load \<lparr>load_vector = [1, 1, 5], num_empty_bins = 0, max_load = 5, bin_uar = (0, 2)\<rparr> =
     Max (set (load_vector
       \<lparr>load_vector = [1, 1, 5], num_empty_bins = 0, max_load = 5, bin_uar = (0, 2)\<rparr>)) \<and>
   uniform_int_contract scripted \<and>
   bin_uar_fixed (RepeatedBallsIntoBins_ctor [0, 2, 5]) \<and>
   count_nonempty (load_vector (RepeatedBallsIntoBins_ctor [0, 2, 5])) \<le> 2147483647 \<and>
   (\<exists>t h. nextRound scripted (RepeatedBallsIntoBins_ctor [0, 2, 5]) [2, 7] = Inr (t, h)) \<and>
   vector_fits [0, 2, 5 :: size_t] \<and> total_balls [0, 2, 5] < 2 ^ 64 \<and>
   nextRounds scripted 2 (RepeatedBallsIntoBins_ctor [0, 2, 5]) [2, 7, 0, 1, 1] =
     Inr (\<lparr>load_vector = [1, 2, 4], num_empty_bins = 0, max_load = 4, bin_uar = (0, 2)\<rparr>, []) \<and>
   max_load \<lparr>load_vector = [1, 2, 4], num_empty_bins = 0, max_load = 4, bin_uar = (0, 2)\<rparr> =
     Max (set (load_vector
       \<lparr>load_vector = [1, 2, 4], num_empty_bins = 0, max_load = 4, bin_uar = (0, 2)\<rparr>))"
proof -
  let ?s = "RepeatedBallsIntoBins_ctor [0, 2, 5]"
  let ?s' = "\<lparr>load_vector = [1, 1, 5], num_empty_bins = 0, max_load = 5, bin_uar = (0, 2)\<rparr>"
  let ?s'' = "\<lparr>load_vector = [1, 2, 4], num_empty_bins = 0, max_load = 4, bin_uar = (0, 2)\<rparr>"
  have h0: "[0, 2, 5 :: size_t] \<noteq> []" by simp
  have h1: "stats_consistent ?s" by code_simp
  have h2: "load_vector ?s \<noteq> []" by code_simp
  have h3: "vector_fits (load_vector ?s)" by (simp add: vector_fits_def ctor_fields)
  have h4: "total_balls (load_vector ?s) < 2 ^ 64" by (simp add: total_balls_def ctor_fields)
  have h5: "nextRound scripted ?s [2, 7] = Inr (?s', [])" by code_simp
  have h6: "uniform_int_contract scripted" by (rule scripted_contract)
  have h7: "bin_uar_fixed ?s" by code_simp
  have h8: "count_nonempty (load_vector ?s) \<le> 2147483647"
    by (simp add: count_nonempty_def ctor_fields)
  have h9: "vector_fits [0, 2, 5 :: size_t]" by (simp add: vector_fits_def)
  have h10: "total_balls [0, 2, 5] < 2 ^ 64" by (simp add: total_balls_def)
  have h11: "nextRounds scripted 2 ?s [2, 7, 0, 1, 1] = Inr (?s'', [])" by code_simp
  note inst = max_load_consistency [where lv = "[0, 2, 5]" and s = "?s" and sample = scripted
      and g = "[2, 7]" and s' = "?s'" and g' = "[]" and k = 2 and h = "[2, 7, 0, 1, 1]"
      and s'' = "?s''" and h' = "[]"]
  note c1 = inst [THEN conjunct1, THEN mp, OF h0]
  have pre: "stats_consistent ?s \<and> load_vector ?s \<noteq> [] \<and> vector_fits (load_vector ?s) \<and>
      total_balls (load_vector ?s) < 2 ^ 64"
    by (intro conjI) (rule h1 h2 h3 h4)+
  note rest = inst [THEN conjunct2, THEN conjunct1, THEN mp, OF pre]
  note c2 = rest [THEN conjunct1, THEN mp, OF h5]
  have more: "uniform_int_contract scripted \<and> bin_uar_fixed ?s \<and>
      count_nonempty (load_vector ?s) \<le> 2147483647"
    by (intro conjI) (rule h6 h7 h8)+
  note c3 = rest [THEN conjunct2, THEN mp, OF more]
  have many: "[0, 2, 5 :: size_t] \<noteq> [] \<and> vector_fits [0, 2, 5 :: size_t] \<and>
      total_balls [0, 2, 5] < 2 ^ 64 \<and>
      nextRounds scripted 2 ?s [2, 7, 0, 1, 1] = Inr (?s'', [])"
    by (intro conjI) (rule h0 h9 h10 h11)+
  note c4 = inst [THEN conjunct2, THEN conjunct2, THEN mp, OF many]
  show ?thesis
    by (intro conjI) (rule h0 c1 h1 h2 h3 h4 h5 c2 h6 h7 h8 c3 h9 h10 h11 c4)+
qed

text \<open>
  Claim C1 as stated fails where a load wraps around. Two bins hold \<open>2^64 - 1\<close> balls
  each and both draws hit bin \<open>0\<close>: phase 1 leaves \<open>2^64 - 2\<close> in each bin, the first
  increment raises bin \<open>0\<close> and \<open>max_load\<close> to \<open>2^64 - 1\<close>, the second wraps bin \<open>0\<close>
  to \<open>0\<close>. The cached maximum stays \<open>2^64 - 1\<close>; the largest entry is \<open>2^64 - 2\<close>.
\<close>

theorem max_load_overflow_counterexample:
  "stats_consistent (RepeatedBallsIntoBins_ctor [18446744073709551615, 18446744073709551615]) \<and>
   nextRound scripted
       (RepeatedBallsIntoBins_ctor [18446744073709551615, 18446744073709551615]) [0, 0] =
     Inr (\<lparr>load_vector = [0, 18446744073709551614], num_empty_bins = 0,
           max_load = 18446744073709551615, bin_uar = (0, 1)\<rparr>, []) \<and>
   max_load \<lparr>load_vector = [0, 18446744073709551614], num_empty_bins = 0,
           max_load = 18446744073709551615, bin_uar = (0, 1)\<rparr> \<noteq>
     Max (set (load_vector \<lparr>load_vector = [0, 18446744073709551614], num_empty_bins = 0,
           max_load = 18446744073709551615, bin_uar = (0, 1)\<rparr>))"
  by code_simp

section \<open>The cached number of empty bins\<close>

text \<open>
  Claim C2, as amended. After construction the cached \<open>num_empty_bins\<close> is the number of
  indices \<open>i\<close> with \<open>load_vector[i] == 0\<close>. From every engine state whose cached statistics
  are consistent and whose loads total less than \<open>2^64\<close> balls, every \<open>nextRound\<close> call that
  returns leaves \<open>num_empty_bins\<close> equal to that number for the new load vector; and the
  call does return when the vector is non-empty, the draws respect the distribution's
  range and at most \<open>INT_MAX\<close> bins are non-empty. So after any number \<open>k\<close> of rounds on an
  engine built from a vector of fewer than \<open>2^64\<close> balls, \<open>num_empty_bins\<close> is the number
  of empty bins.
\<close>

theorem num_empty_bins_consistency:
  "(vector_fits lv \<longrightarrow>
      unat (num_empty_bins (RepeatedBallsIntoBins_ctor lv)) =
        card {i. i < length lv \<and> lv ! i = 0}) \<and>
   (stats_consistent s \<and> vector_fits (load_vector s) \<and>
    total_balls (load_vector s) < 2 ^ 64 \<longrightarrow>
      (nextRound sample s g = Inr (s', g') \<longrightarrow>
         unat (num_empty_bins s') =
           card {i. i < length (load_vector s') \<and> load_vector s' ! i = 0}) \<and>
      (uniform_int_contract sample \<and> bin_uar_fixed s \<and> load_vector s \<noteq> [] \<and>
       count_nonempty (load_vector s) \<le> 2147483647 \<longrightarrow>
         (\<exists>t h. nextRound sample s g = Inr (t, h)))) \<and>
   (vector_fits lv \<and> total_balls lv < 2 ^ 64 \<and>
    nextRounds sample k (RepeatedBallsIntoBins_ctor lv) h = Inr (s'', h') \<longrightarrow>
      unat (num_empty_bins s'') =
        card {i. i < length (load_vector s'') \<and> load_vector s'' ! i = 0})"
proof (intro conjI impI)
  assume "vector_fits lv"
  then show "unat (num_empty_bins (RepeatedBallsIntoBins_ctor lv)) =
      card {i. i < length lv \<and> lv ! i = 0}"
    by (simp add: ctor_fields unat_count_empty flip: count_empty_card)
next
  assume pre: "stats_consistent s \<and> vector_fits (load_vector s) \<and>
    total_balls (load_vector s) < 2 ^ 64"
  assume run: "nextRound sample s g = Inr (s', g')"
  from pre have "unat (num_empty_bins s) = count_empty (load_vector s)"
    by (simp add: stats_consistent_def)
  with run pre have "stats_consistent s'"
    using nextRound_preserves [of sample s g s' g'] by simp
  then show "unat (num_empty_bins s') =
      card {i. i < length (load_vector s') \<and> load_vector s' ! i = 0}"
    by (simp add: stats_consistent_def count_empty_card)
next
  assume pre: "stats_consistent s \<and> vector_fits (load_vector s) \<and>
    total_balls (load_vector s) < 2 ^ 64"
  assume more: "uniform_int_contract sample \<and> bin_uar_fixed s \<and> load_vector s \<noteq> [] \<and>
       count_nonempty (load_vector s) \<le> 2147483647"
  from pre have "unat (balls_to_allocate s) = count_nonempty (load_vector s)"
    unfolding count_nonempty_eq
    by (intro unat_balls_to_allocate) (simp_all add: stats_consistent_def)
  with more have "unat (balls_to_allocate s) \<le> nat INT_MAX"
    by (simp add: INT_MAX_def)
  with pre more show "\<exists>t h. nextRound sample s g = Inr (t, h)"
    by (intro nextRound_completes) simp_all
next
  assume many: "vector_fits lv \<and> total_balls lv < 2 ^ 64 \<and>
    nextRounds sample k (RepeatedBallsIntoBins_ctor lv) h = Inr (s'', h')"
  then have "stats_consistent s'' \<and> total_balls (load_vector s'') = total_balls lv \<and>
      length (load_vector s'') = length lv"
    by (intro nextRounds_from_ctor [of sample k lv h s'' h']) simp_all
  then show "unat (num_empty_bins s'') =
      card {i. i < length (load_vector s'') \<and> load_vector s'' ! i = 0}"
    by (simp add: stats_consistent_def count_empty_card)
qed

text \<open>
  The theorem at the load vector \<open>[1, 0, 3, 1]\<close>. One round with the draws \<open>3, 3, 1\<close>:
  phase 1 leaves \<open>[0, 0, 2, 0]\<close> with three empty bins, phase 2 gives \<open>[0, 1, 2, 2]\<close> with
  one. A second round with the draws \<open>2, 2, 9\<close> (the last clamped to bin \<open>0\<close>):
  \<open>[0, 0, 1, 1]\<close>, then \<open>[1, 0, 3, 1]\<close>.
\<close>

theorem num_empty_bins_consistency_witness:
  "vector_fits [1, 0, 3, 1 :: size_t] \<and>
   unat (num_empty_bins (RepeatedBallsIntoBins_ctor [1, 0, 3, 1])) =
     card {i. i < length [1, 0, 3, 1 :: size_t] \<and> [1, 0, 3, 1 :: size_t] ! i = 0} \<and>
   stats_consistent (RepeatedBallsIntoBins_ctor [1, 0, 3, 1]) \<and>
   vector_fits (load_vector (RepeatedBallsIntoBins_ctor [1, 0, 3, 1])) \<and>
   total_balls (load_vector (RepeatedBallsIntoBins_ctor [1, 0, 3, 1])) < 2 ^ 64 \<and>
   nextRound scripted (RepeatedBallsIntoBins_ctor [1, 0, 3, 1]) [3, 3, 1] =
     Inr (\<lparr>load_vector = [0, 1, 2, 2], num_empty_bins = 1, max_load = 2, bin_uar = (0, 3)\<rparr>, []) \<and>
   unat (num_empty_bins
       \<lparr>load_vector = [0, 1, 2, 2], num_empty_bins = 1, max_load = 2, bin_uar = (0, 3)\<rparr>) =
     card {i. i < length (load_vector
         \<lparr>load_vector = [0, 1, 2, 2], num_empty_bins = 1, max_load = 2, bin_uar = (0, 3)\<rparr>) \<and>
       load_vector
         \<lparr>load_vector = [0, 1, 2, 2], num_empty_bins = 1, max_load = 2, bin_uar = (0, 3)\<rparr> ! i = 0} \<and>
   uniform_int_contract scripted \<and>
   bin_uar_fixed (RepeatedBallsIntoBins_ctor [1, 0, 3, 1]) \<and>
   load_vector (RepeatedBallsIntoBins_ctor [1, 0, 3, 1]) \<noteq> [] \<and>
   count_nonempty (load_vector (RepeatedBallsIntoBins_ctor [1, 0, 3, 1])) \<le> 2147483647 \<and>
   (\<exists>t h. nextRound scripted (RepeatedBallsIntoBins_ctor [1, 0, 3, 1]) [3, 3, 1] = Inr (t, h)) \<and>
   total_balls [1, 0, 3, 1] < 2 ^ 64 \<and>
   nextRounds scripted 2 (RepeatedBallsIntoBins_ctor [1, 0, 3, 1]) [3, 3, 1, 2, 2, 9] =
     Inr (\<lparr>load_vector = [1, 0, 3, 1], num_empty_bins = 1, max_load = 3, bin_uar = (0, 3)\<rparr>, []) \<and>
   unat (num_empty_bins
       \<lparr>load_vector = [1, 0, 3, 1], num_empty_bins = 1, max_load = 3, bin_uar = (0, 3)\<rparr>) =
     card {i. i < length (load_vector
         \<lparr>load_vector = [1, 0, 3, 1], num_empty_bins = 1, max_load = 3, bin_uar = (0, 3)\<rparr>) \<and>
       load_vector
         \<lparr>load_vector = [1, 0, 3, 1], num_empty_bins = 1, max_load = 3, bin_uar = (0, 3)\<rparr> ! i = 0}"
proof -
  let ?s = "RepeatedBallsIntoBins_ctor [1, 0, 3, 1]"
  let ?s' = "\<lparr>load_vector = [0, 1, 2, 2], num_empty_bins = 1, max_load = 2, bin_uar = (0, 3)\<rparr>"
  let ?s'' = "\<lparr>load_vector = [1, 0, 3, 1], num_empty_bins = 1, max_load = 3, bin_uar = (0, 3)\<rparr>"
  have h0: "vector_fits [1, 0, 3, 1 :: size_t]" by (simp add: vector_fits_def)
  have h1: "stats_consistent ?s" by code_simp
  have h2: "load_vector ?s \<noteq> []" by code_simp
  have h3: "vector_fits (load_vector ?s)" by (simp add: vector_fits_def ctor_fields)
  have h4: "total_balls (load_vector ?s) < 2 ^ 64" by (simp add: total_balls_def ctor_fields)
  have h5: "nextRound scripted ?s [3, 3, 1] = Inr (?s', [])" by code_simp
  have h6: "uniform_int_contract scripted" by (rule scripted_contract)
  have h7: "bin_uar_fixed ?s" by code_simp
  have h8: "count_nonempty (load_vector ?s) \<le> 2147483647"
    by (simp add: count_nonempty_def ctor_fields)
  have h9: "total_balls [1, 0, 3, 1] < 2 ^ 64" by (simp add: total_balls_def)
  have h10: "nextRounds scripted 2 ?s [3, 3, 1, 2, 2, 9] = Inr (?s'', [])" by code_simp
  note inst = num_empty_bins_consistency [where lv = "[1, 0, 3, 1]" and s = "?s"
      and sample = scripted and g = "[3, 3, 1]" and s' = "?s'" and g' = "[]" and k = 2
      and h = "[3, 3, 1, 2, 2, 9]" and s'' = "?s''" and h' = "[]"]
  note c1 = inst [THEN conjunct1, THEN mp, OF h0]
  have pre: "stats_consistent ?s \<and> vector_fits (load_vector ?s) \<and>
      total_balls (load_vector ?s) < 2 ^ 64"
    by (intro conjI) (rule h1 h3 h4)+
  note rest = inst [THEN conjunct2, THEN conjunct1, THEN mp, OF pre]
  note c2 = rest [THEN conjunct1, THEN mp, OF h5]
  have more: "uniform_int_contract scripted \<and> bin_uar_fixed ?s \<and> load_vector ?s \<noteq> [] \<and>
      count_nonempty (load_vector ?s) \<le> 2147483647"
    by (intro conjI) (rule h6 h7 h2 h8)+
  note c3 = rest [THEN conjunct2, THEN mp, OF more]
  have many: "vector_fits [1, 0, 3, 1 :: size_t] \<and> total_balls [1, 0, 3, 1] < 2 ^ 64 \<and>
      nextRounds scripted 2 ?s [3, 3, 1, 2, 2, 9] = Inr (?s'', [])"
    by (intro conjI) (rule h0 h9 h10)+
  note c4 = inst [THEN conjunct2, THEN conjunct2, THEN mp, OF many]
  show ?thesis
    by (intro conjI) (rule h0 c1 h1 h3 h4 h5 c2 h6 h7 h2 h8 c3 h9 h10 c4)+
qed

text \<open>
  Claim C2 as stated fails on the same wrap-around: from two bins of \<open>2^64 - 1\<close> balls
  with both draws on bin \<open>0\<close>, bin \<open>0\<close> ends at \<open>0\<close> by wrapping from \<open>2^64 - 1\<close>, not by
  passing through \<open>1\<close>, so the cached count stays \<open>0\<close> while one bin is empty.
\<close>

theorem num_empty_bins_overflow_counterexample:
  "stats_consistent (RepeatedBallsIntoBins_ctor [18446744073709551615, 18446744073709551615]) \<and>
   nextRound scripted
       (RepeatedBallsIntoBins_ctor [18446744073709551615, 18446744073709551615]) [0, 0] =
     Inr (\<lparr>load_vector = [0, 18446744073709551614], num_empty_bins = 0,
           max_load = 18446744073709551615, bin_uar = (0, 1)\<rparr>, []) \<and>
   unat (num_empty_bins \<lparr>load_vector = [0, 18446744073709551614], num_empty_bins = 0,
           max_load = 18446744073709551615, bin_uar = (0, 1)\<rparr>) \<noteq>
     card {i. i < length (load_vector \<lparr>load_vector = [0, 18446744073709551614],
           num_empty_bins = 0, max_load = 18446744073709551615, bin_uar = (0, 1)\<rparr>) \<and>
        load_vector \<lparr>load_vector = [0, 18446744073709551614],
           num_empty_bins = 0, max_load = 18446744073709551615, bin_uar = (0, 1)\<rparr> ! i = 0}"
proof -
  have "stats_consistent
      (RepeatedBallsIntoBins_ctor [18446744073709551615, 18446744073709551615])"
    by code_simp
  moreover have "nextRound scripted
       (RepeatedBallsIntoBins_ctor [18446744073709551615, 18446744073709551615]) [0, 0] =
     Inr (\<lparr>load_vector = [0, 18446744073709551614], num_empty_bins = 0,
           max_load = 18446744073709551615, bin_uar = (0, 1)\<rparr>, [])"
    by code_simp
  moreover have "count_empty [0, 18446744073709551614] = 1"
    by (simp add: count_empty_def)
  then have "card {i. i < length [0, 18446744073709551614 :: size_t] \<and>
      [0, 18446744073709551614 :: size_t] ! i = 0} = 1"
    by (simp only: count_empty_card)
  ultimately show ?thesis
    by simp
qed

section \<open>Conservation of balls\<close>

text \<open>
  Claim C3, as amended. From every engine state with at least one bin whose cached
  \<open>num_empty_bins\<close> is consistent and whose loads total less than \<open>2^64\<close> balls: phase 1
  removes as many balls as there are non-empty bins, \<open>balls_to_allocate\<close> is that same
  number, and every \<open>nextRound\<close> call that returns has put that many balls back, so the
  sum of the load vector is unchanged. The call returns when the draws respect the
  distribution's range and at most \<open>INT_MAX\<close> bins are non-empty.
\<close>

theorem nextRound_conserves_balls:
  "load_vector s \<noteq> [] \<and> vector_fits (load_vector s) \<and>
   unat (num_empty_bins s) = count_empty (load_vector s) \<and>
   total_balls (load_vector s) < 2 ^ 64 \<longrightarrow>
     (\<exists>s1. phase1 0 (vector_size (load_vector s)) (s\<lparr>max_load := 0, num_empty_bins := 0\<rparr>) = Inr s1 \<and>
        total_balls (load_vector s1) + count_nonempty (load_vector s) =
          total_balls (load_vector s) \<and>
        unat (balls_to_allocate s) = count_nonempty (load_vector s) \<and>
        (nextRound sample s g = Inr (s', g') \<longrightarrow>
           total_balls (load_vector s') =
             total_balls (load_vector s1) + unat (balls_to_allocate s) \<and>
           total_balls (load_vector s') = total_balls (load_vector s))) \<and>
     (uniform_int_contract sample \<and> bin_uar_fixed s \<and>
      count_nonempty (load_vector s) \<le> 2147483647 \<longrightarrow>
        (\<exists>t h. nextRound sample s g = Inr (t, h)))"
proof (intro impI)
  let ?lv = "load_vector s"
  let ?s0 = "s\<lparr>max_load := 0, num_empty_bins := 0\<rparr>"
  assume pre: "?lv \<noteq> [] \<and> vector_fits ?lv \<and>
    unat (num_empty_bins s) = count_empty ?lv \<and> total_balls ?lv < 2 ^ 64"
  then have fits: "vector_fits ?lv" and ne: "unat (num_empty_bins s) = count_empty ?lv"
    and room: "total_balls ?lv < 2 ^ 64" and nonempty: "?lv \<noteq> []"
    by simp_all
  from phase1_result [OF fits] obtain s1 where
    p1: "phase1 0 (vector_size ?lv) ?s0 = Inr s1" and
    lv1: "load_vector s1 = map remove_one ?lv"
    by blast
  have b: "unat (balls_to_allocate s) = count_nonempty ?lv"
    using unat_balls_to_allocate [OF fits ne] by (simp add: count_nonempty_eq)
  have removed: "total_balls (load_vector s1) + count_nonempty ?lv = total_balls ?lv"
    unfolding lv1 count_nonempty_eq by (rule total_balls_remove_one)
  have put_back: "total_balls (load_vector s') = total_balls (load_vector s1) + unat (balls_to_allocate s) \<and>
      total_balls (load_vector s') = total_balls ?lv"
    if run: "nextRound sample s g = Inr (s', g')"
  proof -
    from nextRound_preserves [OF run fits ne room]
    have "total_balls (load_vector s') = total_balls ?lv"
      by simp
    with removed b show ?thesis by simp
  qed
  have part1: "\<exists>s1. phase1 0 (vector_size ?lv) ?s0 = Inr s1 \<and>
        total_balls (load_vector s1) + count_nonempty ?lv = total_balls ?lv \<and>
        unat (balls_to_allocate s) = count_nonempty ?lv \<and>
        (nextRound sample s g = Inr (s', g') \<longrightarrow>
           total_balls (load_vector s') =
             total_balls (load_vector s1) + unat (balls_to_allocate s) \<and>
           total_balls (load_vector s') = total_balls ?lv)"
    using p1 removed b put_back by blast
  have part2: "\<exists>t h. nextRound sample s g = Inr (t, h)"
    if more: "uniform_int_contract sample \<and> bin_uar_fixed s \<and>
      count_nonempty ?lv \<le> 2147483647"
  proof -
    from more b have "unat (balls_to_allocate s) \<le> nat INT_MAX"
      by (simp add: INT_MAX_def)
    with more nonempty fits show ?thesis
      by (intro nextRound_completes) simp_all
  qed
  from part1 part2 show
    "(\<exists>s1. phase1 0 (vector_size ?lv) ?s0 = Inr s1 \<and>
        total_balls (load_vector s1) + count_nonempty ?lv = total_balls ?lv \<and>
        unat (balls_to_allocate s) = count_nonempty ?lv \<and>
        (nextRound sample s g = Inr (s', g') \<longrightarrow>
           total_balls (load_vector s') =
             total_balls (load_vector s1) + unat (balls_to_allocate s) \<and>
           total_balls (load_vector s') = total_balls ?lv)) \<and>
     (uniform_int_contract sample \<and> bin_uar_fixed s \<and>
      count_nonempty ?lv \<le> 2147483647 \<longrightarrow>
        (\<exists>t h. nextRound sample s g = Inr (t, h)))"
    by blast
qed

text \<open>
  The theorem at the load vector \<open>[3, 0, 1, 1]\<close> (five balls, three non-empty bins) with
  the draws \<open>1, 1, 0\<close>: phase 1 leaves \<open>[2, 0, 0, 0]\<close>, phase 2 gives \<open>[3, 2, 0, 0]\<close>.
\<close>

theorem nextRound_conserves_balls_witness:
  "load_vector (RepeatedBallsIntoBins_ctor [3, 0, 1, 1]) \<noteq> [] \<and>
   vector_fits (load_vector (RepeatedBallsIntoBins_ctor [3, 0, 1, 1])) \<and>
   unat (num_empty_bins (RepeatedBallsIntoBins_ctor [3, 0, 1, 1])) = count_empty (load_vector (RepeatedBallsIntoBins_ctor [3, 0, 1, 1])) \<and>
   total_balls (load_vector (RepeatedBallsIntoBins_ctor [3, 0, 1, 1])) < 2 ^ 64 \<and>
   phase1 0 (vector_size (load_vector (RepeatedBallsIntoBins_ctor [3, 0, 1, 1]))) ((RepeatedBallsIntoBins_ctor [3, 0, 1, 1])\<lparr>max_load := 0, num_empty_bins := 0\<rparr>) =
     Inr \<lparr>load_vector = [2, 0, 0, 0], num_empty_bins = 3, max_load = 2, bin_uar = (0, 3)\<rparr> \<and>
   total_balls (load_vector \<lparr>load_vector = [2, 0, 0, 0], num_empty_bins = 3, max_load = 2, bin_uar = (0, 3)\<rparr>) + count_nonempty (load_vector (RepeatedBallsIntoBins_ctor [3, 0, 1, 1])) =
     total_balls (load_vector (RepeatedBallsIntoBins_ctor [3, 0, 1, 1])) \<and>
   unat (balls_to_allocate (RepeatedBallsIntoBins_ctor [3, 0, 1, 1])) = count_nonempty (load_vector (RepeatedBallsIntoBins_ctor [3, 0, 1, 1])) \<and>
   nextRound scripted (RepeatedBallsIntoBins_ctor [3, 0, 1, 1]) [1, 1, 0] = Inr (\<lparr>load_vector = [3, 2, 0, 0], num_empty_bins = 2, max_load = 3, bin_uar = (0, 3)\<rparr>, []) \<and>
   total_balls (load_vector \<lparr>load_vector = [3, 2, 0, 0], num_empty_bins = 2, max_load = 3, bin_uar = (0, 3)\<rparr>) = total_balls (load_vector \<lparr>load_vector = [2, 0, 0, 0], num_empty_bins = 3, max_load = 2, bin_uar = (0, 3)\<rparr>) + unat (balls_to_allocate (RepeatedBallsIntoBins_ctor [3, 0, 1, 1])) \<and>
   total_balls (load_vector \<lparr>load_vector = [3, 2, 0, 0], num_empty_bins = 2, max_load = 3, bin_uar = (0, 3)\<rparr>) = total_balls (load_vector (RepeatedBallsIntoBins_ctor [3, 0, 1, 1])) \<and>
   uniform_int_contract scripted \<and>
   bin_uar_fixed (RepeatedBallsIntoBins_ctor [3, 0, 1, 1]) \<and>
   count_nonempty (load_vector (RepeatedBallsIntoBins_ctor [3, 0, 1, 1])) \<le> 2147483647 \<and>
   (\<exists>t h. nextRound scripted (RepeatedBallsIntoBins_ctor [3, 0, 1, 1]) [1, 1, 0] = Inr (t, h))"
proof -
  let ?s = "RepeatedBallsIntoBins_ctor [3, 0, 1, 1]"
  let ?s1 = "\<lparr>load_vector = [2, 0, 0, 0], num_empty_bins = 3, max_load = 2, bin_uar = (0, 3)\<rparr>"
  let ?s' = "\<lparr>load_vector = [3, 2, 0, 0], num_empty_bins = 2, max_load = 3, bin_uar = (0, 3)\<rparr>"
  have h1: "load_vector ?s \<noteq> []" by code_simp
  have h2: "vector_fits (load_vector ?s)" by (simp add: vector_fits_def ctor_fields)
  have h3: "unat (num_empty_bins ?s) = count_empty (load_vector ?s)"
    by (simp add: count_empty_def ctor_fields)
  have h4: "total_balls (load_vector ?s) < 2 ^ 64" by (simp add: total_balls_def ctor_fields)
  have h5: "phase1 0 (vector_size (load_vector ?s)) (?s\<lparr>max_load := 0, num_empty_bins := 0\<rparr>) =
      Inr ?s1"
    by code_simp
  have h6: "nextRound scripted ?s [1, 1, 0] = Inr (?s', [])" by code_simp
  have h7: "uniform_int_contract scripted" by (rule scripted_contract)
  have h8: "bin_uar_fixed ?s" by code_simp
  have h9: "count_nonempty (load_vector ?s) \<le> 2147483647"
    by (simp add: count_nonempty_def ctor_fields)
  have pre: "load_vector ?s \<noteq> [] \<and> vector_fits (load_vector ?s) \<and>
      unat (num_empty_bins ?s) = count_empty (load_vector ?s) \<and>
      total_balls (load_vector ?s) < 2 ^ 64"
    by (intro conjI) (rule h1 h2 h3 h4)+
  note inst = nextRound_conserves_balls [where s = "?s" and sample = scripted
      and g = "[1, 1, 0]" and s' = "?s'" and g' = "[]", THEN mp, OF pre]
  from inst [THEN conjunct1] obtain s1 where
    p1: "phase1 0 (vector_size (load_vector ?s)) (?s\<lparr>max_load := 0, num_empty_bins := 0\<rparr>) =
      Inr s1" and
    c1: "total_balls (load_vector s1) + count_nonempty (load_vector ?s) =
      total_balls (load_vector ?s)" and
    c2: "unat (balls_to_allocate ?s) = count_nonempty (load_vector ?s)" and
    c3: "nextRound scripted ?s [1, 1, 0] = Inr (?s', []) \<longrightarrow>
      total_balls (load_vector ?s') = total_balls (load_vector s1) + unat (balls_to_allocate ?s) \<and>
      total_balls (load_vector ?s') = total_balls (load_vector ?s)"
    by (elim exE conjE)
  from p1 h5 have eq: "s1 = ?s1" by simp
  note c1' = c1 [unfolded eq]
  note c3' = c3 [unfolded eq, THEN mp, OF h6]
  have more: "uniform_int_contract scripted \<and> bin_uar_fixed ?s \<and>
      count_nonempty (load_vector ?s) \<le> 2147483647"
    by (intro conjI) (rule h7 h8 h9)+
  note c4 = inst [THEN conjunct2, THEN mp, OF more]
  show ?thesis
    by (intro conjI) (rule h1 h2 h3 h4 h5 c1' c2 h6 c3' [THEN conjunct1] c3' [THEN conjunct2]
        h7 h8 h9 c4)+
qed

text \<open>
  Claim C3 as stated fails on the wrap-around: two bins of \<open>2^64 - 1\<close> balls each hold
  \<open>2^65 - 2\<close> balls; after one round with both draws on bin \<open>0\<close> the vector is
  \<open>[0, 2^64 - 2]\<close>: \<open>2^64\<close> balls are gone.
\<close>

theorem conservation_overflow_counterexample:
  "load_vector (RepeatedBallsIntoBins_ctor [18446744073709551615, 18446744073709551615]) \<noteq> [] \<and>
   unat (num_empty_bins (RepeatedBallsIntoBins_ctor [18446744073709551615, 18446744073709551615])) =
     count_empty (load_vector (RepeatedBallsIntoBins_ctor [18446744073709551615, 18446744073709551615])) \<and>
   nextRound scripted (RepeatedBallsIntoBins_ctor [18446744073709551615, 18446744073709551615]) [0, 0] =
     Inr (\<lparr>load_vector = [0, 18446744073709551614], num_empty_bins = 0,
           max_load = 18446744073709551615, bin_uar = (0, 1)\<rparr>, []) \<and>
   total_balls (load_vector \<lparr>load_vector = [0, 18446744073709551614], num_empty_bins = 0,
           max_load = 18446744073709551615, bin_uar = (0, 1)\<rparr>) \<noteq>
     total_balls (load_vector (RepeatedBallsIntoBins_ctor [18446744073709551615, 18446744073709551615]))"
proof -
  have "load_vector (RepeatedBallsIntoBins_ctor [18446744073709551615, 18446744073709551615]) \<noteq> []"
    by (simp add: ctor_fields)
  moreover have "unat (num_empty_bins (RepeatedBallsIntoBins_ctor [18446744073709551615, 18446744073709551615])) =
     count_empty (load_vector (RepeatedBallsIntoBins_ctor [18446744073709551615, 18446744073709551615]))"
    by (simp add: ctor_fields count_empty_def)
  moreover have "nextRound scripted (RepeatedBallsIntoBins_ctor [18446744073709551615, 18446744073709551615]) [0, 0] =
     Inr (\<lparr>load_vector = [0, 18446744073709551614], num_empty_bins = 0,
           max_load = 18446744073709551615, bin_uar = (0, 1)\<rparr>, [])"
    by code_simp
  moreover have "total_balls (load_vector (RepeatedBallsIntoBins_ctor [18446744073709551615, 18446744073709551615])) =
      36893488147419103230"
    by (simp add: ctor_fields total_balls_def)
  moreover have "total_balls (load_vector \<lparr>load_vector = [0, 18446744073709551614],
      num_empty_bins = 0, max_load = 18446744073709551615, bin_uar = (0, 1)\<rparr>) = 18446744073709551614"
    by (simp add: total_balls_def)
  ultimately show ?thesis
    by simp
qed

section \<open>The uniform load vector\<close>

lemma generate_uniform_vector_granted:
  assumes "num_bins \<noteq> 0" and "num_bins \<le> vector_max_size" and "allocate h num_bins = Some h'"
  shows "generate_uniform_vector allocate h num_bins num_balls =
     Inr (replicate (unat (num_balls mod num_bins)) (num_balls div num_bins + 1) @
          replicate (unat num_bins - unat (num_balls mod num_bins)) (num_balls div num_bins), h')"
proof -
  have "new_vector_storage allocate h num_bins = Inr h'"
    using assms(2,3) by (simp add: new_vector_storage_def not_less [symmetric])
  then show ?thesis
    using assms(1)
    by (simp add: generate_uniform_vector_def Let_def add_remainder_uniform)
qed

lemma four_bins_ten_balls:
  "add_remainder 0 (10 mod 4) (replicate (unat (4 :: size_t)) (10 div 4)) = Inr [3, 3, 2, 2]"
  by code_simp

lemma generate_uniform_vector_shape:
  assumes nz: "num_bins \<noteq> 0" and le: "num_bins \<le> vector_max_size"
    and granted: "allocate h num_bins = Some h'"
  shows "\<exists>v. generate_uniform_vector allocate h num_bins num_balls = Inr (v, h') \<and>
       length v = unat num_bins \<and> total_balls v = unat num_balls \<and>
       (\<forall>k < unat num_bins. unat (v ! k) =
          unat num_balls div unat num_bins +
            (if k < unat num_balls mod unat num_bins then 1 else 0))"
proof -
  define n where "n = unat num_bins"
  define r where "r = unat (num_balls mod num_bins)"
  define d where "d = unat num_balls div unat num_bins"
  let ?q = "num_balls div num_bins"
  let ?v = "replicate r (?q + 1) @ replicate (n - r) ?q"
  have r_mod: "r = unat num_balls mod unat num_bins"
    unfolding r_def by (rule unat_mod_distrib)
  have q: "unat ?q = d"
    unfolding d_def by (rule unat_div_distrib)
  have "0 < unat num_bins"
    using nz by (simp add: unat_gt_0)
  then have rn: "r < n"
    unfolding r_mod n_def by (rule mod_less_divisor)
  have q1: "unat (?q + 1) = d + 1" if "0 < r"
  proof -
    from that have "unat (num_balls mod num_bins) \<noteq> unat (0 :: size_t)"
      by (simp add: r_def)
    then have "num_balls mod num_bins \<noteq> 0"
      by (rule contrapos_nn) (rule arg_cong)
    with nz show ?thesis
      unfolding d_def by (rule quotient_plus_one)
  qed
  have run: "generate_uniform_vector allocate h num_bins num_balls = Inr (?v, h')"
    unfolding r_def n_def using nz le granted by (rule generate_uniform_vector_granted)
  have len: "length ?v = unat num_bins"
    using rn by (simp add: n_def)
  have "total_balls ?v = n * d + r"
    using rn q q1 by (rule total_balls_uniform)
  also have "\<dots> = unat num_balls"
    unfolding n_def d_def r_mod by (rule mult_div_mod_eq)
  finally have tot: "total_balls ?v = unat num_balls" .
  have ent: "unat (?v ! k) =
      unat num_balls div unat num_bins + (if k < unat num_balls mod unat num_bins then 1 else 0)"
    if "k < unat num_bins" for k
  proof -
    from that have kn: "k < n"
      by (simp add: n_def)
    have "unat (?v ! k) = d + (if k < r then 1 else 0)"
    proof (cases "k < r")
      case True
      then have "0 < r" by simp
      from q1 [OF this] True kn rn show ?thesis
        by (simp add: nth_uniform)
    next
      case False
      with kn rn q show ?thesis
        by (simp add: nth_uniform)
    qed
    then show ?thesis
      by (simp only: d_def r_mod)
  qed
  from run len tot ent show ?thesis
    by blast
qed

text \<open>
  Claim C4, as amended. For \<open>0 < num_bins \<le> 2^60 - 1\<close> (the vector's \<open>max_size()\<close>) and a
  granted allocation, \<open>generate_uniform_vector\<close> returns a vector of length \<open>num_bins\<close>
  whose entries sum to \<open>num_balls\<close>; entry \<open>k\<close> is \<open>floor(num_balls / num_bins)\<close>, plus one
  exactly when \<open>k < num_balls mod num_bins\<close> (all as numbers, without wrap-around). From
  \<open>2^60\<close> bins on the vector's constructor throws \<open>std::length_error\<close>, and a refused
  allocation throws \<open>std::bad_alloc\<close>. For four bins and ten balls the vector is
  \<open>[3, 3, 2, 2]\<close>.
\<close>

theorem generate_uniform_vector_correct:
  "(num_bins > 0 \<and> num_bins \<le> vector_max_size \<and> allocate h num_bins = Some h' \<longrightarrow>
      (\<exists>v. generate_uniform_vector allocate h num_bins num_balls = Inr (v, h') \<and>
         length v = unat num_bins \<and>
         total_balls v = unat num_balls \<and>
         (\<forall>k < unat num_bins.
            unat (v ! k) =
              unat num_balls div unat num_bins +
                (if k < unat num_balls mod unat num_bins then 1 else 0)))) \<and>
   (num_bins > vector_max_size \<longrightarrow>
      generate_uniform_vector allocate h num_bins num_balls = Inl LengthError) \<and>
   (num_bins > 0 \<and> num_bins \<le> vector_max_size \<and> allocate h num_bins = None \<longrightarrow>
      generate_uniform_vector allocate h num_bins num_balls = Inl BadAlloc) \<and>
   (allocate h 4 = Some h' \<longrightarrow>
      generate_uniform_vector allocate h 4 10 = Inr ([3, 3, 2, 2], h'))"
proof (intro conjI impI)
  assume "allocate h 4 = Some h'"
  then have "new_vector_storage allocate h 4 = Inr h'"
    by (simp add: new_vector_storage_def vector_max_size_def)
  then show "generate_uniform_vector allocate h 4 10 = Inr ([3, 3, 2, 2], h')"
    by (simp only: generate_uniform_vector_def Let_def four_bins_ten_balls) simp
next
  assume big: "num_bins > vector_max_size"
  then have "num_bins \<noteq> 0"
    by (auto simp: vector_max_size_def)
  with big show "generate_uniform_vector allocate h num_bins num_balls = Inl LengthError"
    by (simp add: generate_uniform_vector_def new_vector_storage_def)
next
  assume "num_bins > 0 \<and> num_bins \<le> vector_max_size \<and> allocate h num_bins = None"
  then show "generate_uniform_vector allocate h num_bins num_balls = Inl BadAlloc"
    by (simp add: generate_uniform_vector_def new_vector_storage_def not_less [symmetric]
        word_gt_0)
next
  assume "num_bins > 0 \<and> num_bins \<le> vector_max_size \<and> allocate h num_bins = Some h'"
  then show "\<exists>v. generate_uniform_vector allocate h num_bins num_balls = Inr (v, h') \<and>
       length v = unat num_bins \<and> total_balls v = unat num_balls \<and>
       (\<forall>k < unat num_bins. unat (v ! k) =
          unat num_balls div unat num_bins +
            (if k < unat num_balls mod unat num_bins then 1 else 0))"
    by (intro generate_uniform_vector_shape) (simp_all add: word_gt_0)
qed


text \<open>
  The theorem for three bins and eleven balls on an allocator that grants everything:
  \<open>[4, 4, 3]\<close>, the first \<open>11 mod 3 = 2\<close> entries hold \<open>floor(11 / 3) + 1 = 4\<close>; for \<open>2^60\<close>
  bins; and for three bins on an allocator that refuses.
\<close>

theorem generate_uniform_vector_correct_witness:
  "(3 :: size_t) > 0 \<and> (3 :: size_t) \<le> vector_max_size \<and> unlimited_heap () 3 = Some () \<and>
   generate_uniform_vector unlimited_heap () 3 11 = Inr ([4, 4, 3], ()) \<and>
   length [4, 4, 3 :: size_t] = unat (3 :: size_t) \<and>
   total_balls [4, 4, 3] = unat (11 :: size_t) \<and>
   (1 :: nat) < unat (3 :: size_t) \<and>
   unat ([4, 4, 3 :: size_t] ! 1) =
     unat (11 :: size_t) div unat (3 :: size_t) +
       (if 1 < unat (11 :: size_t) mod unat (3 :: size_t) then 1 else 0) \<and>
   (2 :: nat) < unat (3 :: size_t) \<and>
   unat ([4, 4, 3 :: size_t] ! 2) =
     unat (11 :: size_t) div unat (3 :: size_t) +
       (if 2 < unat (11 :: size_t) mod unat (3 :: size_t) then 1 else 0) \<and>
   (1152921504606846976 :: size_t) > vector_max_size \<and>
   generate_uniform_vector unlimited_heap () 1152921504606846976 11 = Inl LengthError \<and>
   (\<lambda>h n. None :: unit option) () (3 :: size_t) = None \<and>
   generate_uniform_vector (\<lambda>h n. None) () 3 11 = Inl BadAlloc \<and>
   unlimited_heap () 4 = Some () \<and>
   generate_uniform_vector unlimited_heap () 4 10 = Inr ([3, 3, 2, 2], ())"
proof -
  have h1: "(3 :: size_t) > 0" by simp
  have h2: "(3 :: size_t) \<le> vector_max_size" by (simp add: vector_max_size_def)
  have h3: "unlimited_heap () 3 = Some ()" by (simp add: unlimited_heap_def)
  have h4: "generate_uniform_vector unlimited_heap () 3 11 = Inr ([4, 4, 3], ())" by code_simp
  have h5: "(1 :: nat) < unat (3 :: size_t)" by simp
  have h6: "(2 :: nat) < unat (3 :: size_t)" by simp
  have h7: "(1152921504606846976 :: size_t) > vector_max_size" by (simp add: vector_max_size_def)
  have h8: "(\<lambda>h n. None :: unit option) () (3 :: size_t) = None" by simp
  have h9: "unlimited_heap () 4 = Some ()" by (simp add: unlimited_heap_def)
  note granted = generate_uniform_vector_correct [where num_bins = 3 and num_balls = 11
      and allocate = unlimited_heap and h = "()" and h' = "()"]
  have pre: "(3 :: size_t) > 0 \<and> (3 :: size_t) \<le> vector_max_size \<and> unlimited_heap () 3 = Some ()"
    by (intro conjI) (rule h1 h2 h3)+
  from granted [THEN conjunct1, THEN mp, OF pre] obtain v where
    run: "generate_uniform_vector unlimited_heap () 3 11 = Inr (v, ())" and
    len: "length v = unat (3 :: size_t)" and
    tot: "total_balls v = unat (11 :: size_t)" and
    ent: "\<forall>k < unat (3 :: size_t). unat (v ! k) =
        unat (11 :: size_t) div unat (3 :: size_t) +
          (if k < unat (11 :: size_t) mod unat (3 :: size_t) then 1 else 0)"
    by (elim exE conjE)
  from run h4 have eq: "v = [4, 4, 3]" by simp
  note e1 = ent [unfolded eq, THEN spec, of 1, THEN mp, OF h5]
  note e2 = ent [unfolded eq, THEN spec, of 2, THEN mp, OF h6]
  note too_long = generate_uniform_vector_correct [where num_bins = 1152921504606846976
      and num_balls = 11 and allocate = unlimited_heap and h = "()",
      THEN conjunct2, THEN conjunct1, THEN mp, OF h7]
  have pre': "(3 :: size_t) > 0 \<and> (3 :: size_t) \<le> vector_max_size \<and>
      (\<lambda>h n. None :: unit option) () (3 :: size_t) = None"
    by (intro conjI) (rule h1 h2 h8)+
  note refused = generate_uniform_vector_correct [where num_bins = 3 and num_balls = 11
      and allocate = "\<lambda>h n. None" and h = "()",
      THEN conjunct2, THEN conjunct2, THEN conjunct1, THEN mp, OF pre']
  note scenario = generate_uniform_vector_correct [where allocate = unlimited_heap and h = "()"
      and h' = "()", THEN conjunct2, THEN conjunct2, THEN conjunct2, THEN mp, OF h9]
  show ?thesis
    by (intro conjI) (rule h1 h2 h3 h4 len [unfolded eq] tot [unfolded eq] h5 e1 h6 e2
        h7 too_long h8 refused h9 scenario)+
qed

text \<open>
  Claim C4 as stated fails for \<open>2^60\<close> bins: \<open>num_bins > 0\<close>, and the constructor of the
  vector throws \<open>std::length_error\<close> whatever the allocator would grant; no vector is
  returned.
\<close>

theorem generate_uniform_vector_length_error_counterexample:
  "(1152921504606846976 :: size_t) > 0 \<and>
   generate_uniform_vector unlimited_heap () 1152921504606846976 10 = Inl LengthError"
  by (simp add: generate_uniform_vector_def new_vector_storage_def vector_max_size_def)

section \<open>Phase 1 never takes a ball from an empty bin\<close>

text \<open>
  Claim C5. Phase 1 of \<open>nextRound\<close> runs to its end on every engine state and keeps the
  vector's length; a bin whose load is positive ends with exactly one ball fewer (as a
  number, so without wrap-around), a bin at zero stays at zero. No load ever passes below
  zero.
\<close>

theorem phase1_decrements_positive_only:
  "vector_fits (load_vector s) \<longrightarrow>
     (\<exists>s1. phase1 0 (vector_size (load_vector s)) (s\<lparr>max_load := 0, num_empty_bins := 0\<rparr>) = Inr s1 \<and>
        length (load_vector s1) = length (load_vector s) \<and>
        (\<forall>i < length (load_vector s).
           (load_vector s ! i > 0 \<longrightarrow>
              load_vector s1 ! i = load_vector s ! i - 1 \<and>
              int (unat (load_vector s1 ! i)) = int (unat (load_vector s ! i)) - 1) \<and>
           (load_vector s ! i = 0 \<longrightarrow> load_vector s1 ! i = 0)))"
proof
  assume fits: "vector_fits (load_vector s)"
  from phase1_result [OF fits] obtain s1 where
    p1: "phase1 0 (vector_size (load_vector s)) (s\<lparr>max_load := 0, num_empty_bins := 0\<rparr>) = Inr s1" and
    lv1: "load_vector s1 = map remove_one (load_vector s)"
    by blast
  have pos: "load_vector s1 ! i = load_vector s ! i - 1 \<and>
        int (unat (load_vector s1 ! i)) = int (unat (load_vector s ! i)) - 1"
    if "i < length (load_vector s)" and "load_vector s ! i > 0" for i
  proof -
    from that(2) have "0 < unat (load_vector s ! i)"
      by (simp add: word_gt_0 unat_gt_0)
    with that show ?thesis
      by (simp add: lv1 remove_one_def unat_minus_one word_gt_0 of_nat_diff)
  qed
  have zero: "load_vector s1 ! i = 0"
    if "i < length (load_vector s)" and "load_vector s ! i = 0" for i
    using that by (simp add: lv1 remove_one_def)
  have each: "\<forall>i < length (load_vector s).
         (load_vector s ! i > 0 \<longrightarrow>
            load_vector s1 ! i = load_vector s ! i - 1 \<and>
            int (unat (load_vector s1 ! i)) = int (unat (load_vector s ! i)) - 1) \<and>
         (load_vector s ! i = 0 \<longrightarrow> load_vector s1 ! i = 0)"
    using pos zero by blast
  have len: "length (load_vector s1) = length (load_vector s)"
    by (simp add: lv1)
  from p1 len each show "\<exists>s1. phase1 0 (vector_size (load_vector s))
        (s\<lparr>max_load := 0, num_empty_bins := 0\<rparr>) = Inr s1 \<and>
      length (load_vector s1) = length (load_vector s) \<and>
      (\<forall>i < length (load_vector s).
         (load_vector s ! i > 0 \<longrightarrow>
            load_vector s1 ! i = load_vector s ! i - 1 \<and>
            int (unat (load_vector s1 ! i)) = int (unat (load_vector s ! i)) - 1) \<and>
         (load_vector s ! i = 0 \<longrightarrow> load_vector s1 ! i = 0))"
    by blast
qed

text \<open>
  The theorem at the load vector \<open>[0, 2, 5]\<close>: bin \<open>0\<close> is empty and stays at \<open>0\<close>, bin
  \<open>1\<close> goes from \<open>2\<close> to \<open>1\<close>.
\<close>

theorem phase1_decrements_positive_only_witness:
  "vector_fits (load_vector (RepeatedBallsIntoBins_ctor [0, 2, 5])) \<and>
   phase1 0 (vector_size (load_vector (RepeatedBallsIntoBins_ctor [0, 2, 5])))
       ((RepeatedBallsIntoBins_ctor [0, 2, 5])\<lparr>max_load := 0, num_empty_bins := 0\<rparr>) =
     Inr \<lparr>load_vector = [0, 1, 4], num_empty_bins = 1, max_load = 4, bin_uar = (0, 2)\<rparr> \<and>
   (1 :: nat) < length (load_vector (RepeatedBallsIntoBins_ctor [0, 2, 5])) \<and>
   load_vector (RepeatedBallsIntoBins_ctor [0, 2, 5]) ! 1 > 0 \<and>
   load_vector \<lparr>load_vector = [0, 1, 4], num_empty_bins = 1, max_load = 4, bin_uar = (0, 2)\<rparr> ! 1 =
     load_vector (RepeatedBallsIntoBins_ctor [0, 2, 5]) ! 1 - 1 \<and>
   int (unat (load_vector
       \<lparr>load_vector = [0, 1, 4], num_empty_bins = 1, max_load = 4, bin_uar = (0, 2)\<rparr> ! 1)) =
     int (unat (load_vector (RepeatedBallsIntoBins_ctor [0, 2, 5]) ! 1)) - 1 \<and>
   (0 :: nat) < length (load_vector (RepeatedBallsIntoBins_ctor [0, 2, 5])) \<and>
   load_vector (RepeatedBallsIntoBins_ctor [0, 2, 5]) ! 0 = 0 \<and>
   load_vector \<lparr>load_vector = [0, 1, 4], num_empty_bins = 1, max_load = 4, bin_uar = (0, 2)\<rparr> ! 0 = 0"
proof -
  let ?s = "RepeatedBallsIntoBins_ctor [0, 2, 5]"
  let ?s1 = "\<lparr>load_vector = [0, 1, 4], num_empty_bins = 1, max_load = 4, bin_uar = (0, 2)\<rparr>"
  have h1: "vector_fits (load_vector ?s)" by (simp add: vector_fits_def ctor_fields)
  have h2: "phase1 0 (vector_size (load_vector ?s)) (?s\<lparr>max_load := 0, num_empty_bins := 0\<rparr>) =
      Inr ?s1"
    by code_simp
  have h3: "(1 :: nat) < length (load_vector ?s)" by (simp add: ctor_fields)
  have h4: "load_vector ?s ! 1 > 0" by (simp add: ctor_fields)
  have h5: "(0 :: nat) < length (load_vector ?s)" by (simp add: ctor_fields)
  have h6: "load_vector ?s ! 0 = 0" by (simp add: ctor_fields)
  from phase1_decrements_positive_only [where s = "?s", THEN mp, OF h1] obtain s1 where
    p1: "phase1 0 (vector_size (load_vector ?s)) (?s\<lparr>max_load := 0, num_empty_bins := 0\<rparr>) =
      Inr s1" and
    each: "\<forall>i < length (load_vector ?s).
       (load_vector ?s ! i > 0 \<longrightarrow>
          load_vector s1 ! i = load_vector ?s ! i - 1 \<and>
          int (unat (load_vector s1 ! i)) = int (unat (load_vector ?s ! i)) - 1) \<and>
       (load_vector ?s ! i = 0 \<longrightarrow> load_vector s1 ! i = 0)"
    by (elim exE conjE)
  from p1 h2 have eq: "s1 = ?s1" by simp
  note at1 = each [unfolded eq, THEN spec, of 1, THEN mp, OF h3, THEN conjunct1, THEN mp, OF h4]
  note at0 = each [unfolded eq, THEN spec, of 0, THEN mp, OF h5, THEN conjunct2, THEN mp, OF h6]
  show ?thesis
    by (intro conjI) (rule h1 h2 h3 h4 at1 [THEN conjunct1] at1 [THEN conjunct2] h5 h6 at0)+
qed

section \<open>Two scenarios\<close>

text \<open>
  Claim C6. An engine constructed from an all-zero load vector of length \<open>n\<close> has
  consistent statistics, \<open>max_load = 0\<close> and \<open>num_empty_bins = n\<close>; its \<open>nextRound\<close>
  allocates no ball, draws nothing and returns the engine as it was. (The length is a
  \<open>size_t\<close>; \<open>n \<ge> 1\<close> is not needed.)
\<close>

theorem all_empty_round_is_noop:
  "n < 2 ^ 64 \<longrightarrow>
     stats_consistent (RepeatedBallsIntoBins_ctor (replicate n 0)) \<and>
     load_vector (RepeatedBallsIntoBins_ctor (replicate n 0)) = replicate n 0 \<and>
     max_load (RepeatedBallsIntoBins_ctor (replicate n 0)) = 0 \<and>
     unat (num_empty_bins (RepeatedBallsIntoBins_ctor (replicate n 0))) = n \<and>
     balls_to_allocate (RepeatedBallsIntoBins_ctor (replicate n 0)) = 0 \<and>
     nextRound sample (RepeatedBallsIntoBins_ctor (replicate n 0)) g =
       Inr (RepeatedBallsIntoBins_ctor (replicate n 0), g)"
proof
  assume n: "n < 2 ^ 64"
  let ?lv = "replicate n (0 :: size_t)"
  let ?s = "RepeatedBallsIntoBins_ctor ?lv"
  let ?init = "?s\<lparr>max_load := 0, num_empty_bins := 0\<rparr>"
  have fits: "vector_fits (load_vector ?s)"
    using n by (simp add: vector_fits_def ctor_fields)
  have cons: "stats_consistent ?s"
    using n by (intro ctor_consistent) (simp add: vector_fits_def)
  have ne: "unat (num_empty_bins ?s) = n"
    using cons by (simp add: stats_consistent_def ctor_fields count_empty_replicate_zero)
  have b: "balls_to_allocate ?s = 0"
    by (simp add: balls_to_allocate_def ctor_fields vector_size_def count_empty_replicate_zero)
  from phase1_result [OF fits] obtain s1 where
    p1: "phase1 0 (vector_size (load_vector ?s)) ?init = Inr s1" and
    lv1: "load_vector s1 = map remove_one (load_vector ?s)" and
    inv1: "stats_consistent s1" and bu1: "bin_uar s1 = bin_uar ?s"
    by blast
  have lv1': "load_vector s1 = ?lv"
    by (simp add: lv1 ctor_fields remove_one_zero)
  have "unat (num_empty_bins s1) = unat (num_empty_bins ?s)"
    using inv1 ne by (simp add: stats_consistent_def lv1' count_empty_replicate_zero)
  then have ne1: "num_empty_bins s1 = num_empty_bins ?s"
    by (simp add: word_unat_eq_iff)
  have mx1: "max_load s1 = max_load ?s"
    using inv1 by (simp add: stats_consistent_def lv1' ctor_fields)
  have same: "s1 = ?s"
    using lv1' ne1 mx1 bu1 by (intro RepeatedBallsIntoBins.equality) (simp_all add: ctor_fields)
  have "phase2 sample 0 0 s1 g = Inr (s1, g)"
    by (subst phase2.simps) simp
  with p1 b same have run: "nextRound sample ?s g = Inr (?s, g)"
    by (simp add: nextRound_def Let_def)
  from cons ne b run show
    "stats_consistent ?s \<and> load_vector ?s = ?lv \<and> max_load ?s = 0 \<and>
     unat (num_empty_bins ?s) = n \<and> balls_to_allocate ?s = 0 \<and>
     nextRound sample ?s g = Inr (?s, g)"
    by (simp add: ctor_fields max_entry_replicate_zero)
qed

text \<open>The theorem for three empty bins.\<close>

theorem all_empty_round_is_noop_witness:
  "(3 :: nat) < 2 ^ 64 \<and>
   stats_consistent (RepeatedBallsIntoBins_ctor (replicate 3 0)) \<and>
   load_vector (RepeatedBallsIntoBins_ctor (replicate 3 0)) = replicate 3 0 \<and>
   max_load (RepeatedBallsIntoBins_ctor (replicate 3 0)) = 0 \<and>
   unat (num_empty_bins (RepeatedBallsIntoBins_ctor (replicate 3 0))) = 3 \<and>
   balls_to_allocate (RepeatedBallsIntoBins_ctor (replicate 3 0)) = 0 \<and>
   nextRound scripted (RepeatedBallsIntoBins_ctor (replicate 3 0)) [1, 2] =
     Inr (RepeatedBallsIntoBins_ctor (replicate 3 0), [1, 2])"
proof -
  have h: "(3 :: nat) < 2 ^ 64" by simp
  from all_empty_round_is_noop [where n = 3 and sample = scripted and g = "[1, 2]", THEN mp, OF h]
  show ?thesis
    using h by (intro conjI) simp_all
qed

text \<open>
  Claim C7. A single-bin engine built with load \<open>m > 0\<close> has \<open>max_load = m\<close> and no empty
  bin. With draws in the distribution's range \<open>[0, 0]\<close>, phase 1 of \<open>nextRound\<close> takes the
  one ball (leaving \<open>m - 1\<close>), phase 2 puts it back into the only bin, and the round
  returns the engine as it was; so does every number \<open>k\<close> of rounds.
\<close>

theorem single_bin_load_invariant:
  "m > 0 \<and> uniform_int_contract sample \<longrightarrow>
     load_vector (RepeatedBallsIntoBins_ctor [m]) = [m] \<and>
     max_load (RepeatedBallsIntoBins_ctor [m]) = m \<and>
     num_empty_bins (RepeatedBallsIntoBins_ctor [m]) = 0 \<and>
     balls_to_allocate (RepeatedBallsIntoBins_ctor [m]) = 1 \<and>
     (\<exists>s1. phase1 0 (vector_size (load_vector (RepeatedBallsIntoBins_ctor [m])))
              ((RepeatedBallsIntoBins_ctor [m])\<lparr>max_load := 0, num_empty_bins := 0\<rparr>) = Inr s1 \<and>
           load_vector s1 = [m - 1] \<and>
           phase2 sample 1 0 s1 g = Inr (RepeatedBallsIntoBins_ctor [m], snd (sample (0, 0) g))) \<and>
     nextRound sample (RepeatedBallsIntoBins_ctor [m]) g =
       Inr (RepeatedBallsIntoBins_ctor [m], snd (sample (0, 0) g)) \<and>
     (\<exists>g'. nextRounds sample k (RepeatedBallsIntoBins_ctor [m]) g =
        Inr (RepeatedBallsIntoBins_ctor [m], g'))"
proof
  assume "m > 0 \<and> uniform_int_contract sample"
  then have m: "m \<noteq> 0" and c: "uniform_int_contract sample"
    by (simp_all add: word_gt_0)
  have "\<exists>s1. phase1 0 (vector_size (load_vector (RepeatedBallsIntoBins_ctor [m])))
              ((RepeatedBallsIntoBins_ctor [m])\<lparr>max_load := 0, num_empty_bins := 0\<rparr>) = Inr s1 \<and>
           load_vector s1 = [m - 1] \<and>
           phase2 sample 1 0 s1 g = Inr (RepeatedBallsIntoBins_ctor [m], snd (sample (0, 0) g))"
    using m c by (simp add: ctor_single vector_size_def phase1_single phase2_single)
  moreover have "balls_to_allocate (RepeatedBallsIntoBins_ctor [m]) = 1"
    using m by (simp add: ctor_single balls_to_allocate_def vector_size_def)
  moreover note nextRound_single [OF m c, of g] nextRounds_single [OF m c, of k g]
  ultimately show
    "load_vector (RepeatedBallsIntoBins_ctor [m]) = [m] \<and>
     max_load (RepeatedBallsIntoBins_ctor [m]) = m \<and>
     num_empty_bins (RepeatedBallsIntoBins_ctor [m]) = 0 \<and>
     balls_to_allocate (RepeatedBallsIntoBins_ctor [m]) = 1 \<and>
     (\<exists>s1. phase1 0 (vector_size (load_vector (RepeatedBallsIntoBins_ctor [m])))
              ((RepeatedBallsIntoBins_ctor [m])\<lparr>max_load := 0, num_empty_bins := 0\<rparr>) = Inr s1 \<and>
           load_vector s1 = [m - 1] \<and>
           phase2 sample 1 0 s1 g = Inr (RepeatedBallsIntoBins_ctor [m], snd (sample (0, 0) g))) \<and>
     nextRound sample (RepeatedBallsIntoBins_ctor [m]) g =
       Inr (RepeatedBallsIntoBins_ctor [m], snd (sample (0, 0) g)) \<and>
     (\<exists>g'. nextRounds sample k (RepeatedBallsIntoBins_ctor [m]) g =
        Inr (RepeatedBallsIntoBins_ctor [m], g'))"
    using m by (simp add: ctor_single)
qed

text \<open>
  The theorem for one bin holding seven balls, over two rounds; the scripted draws \<open>5\<close>
  and \<open>9\<close> are clamped to bin \<open>0\<close>.
\<close>

theorem single_bin_load_invariant_witness:
  "(7 :: size_t) > 0 \<and> uniform_int_contract scripted \<and>
   load_vector (RepeatedBallsIntoBins_ctor [7]) = [7] \<and>
   max_load (RepeatedBallsIntoBins_ctor [7]) = 7 \<and>
   num_empty_bins (RepeatedBallsIntoBins_ctor [7]) = 0 \<and>
   balls_to_allocate (RepeatedBallsIntoBins_ctor [7]) = 1 \<and>
   nextRound scripted (RepeatedBallsIntoBins_ctor [7]) [5, 9] =
     Inr (RepeatedBallsIntoBins_ctor [7], snd (scripted (0, 0) [5, 9])) \<and>
   (\<exists>g'. nextRounds scripted 2 (RepeatedBallsIntoBins_ctor [7]) [5, 9] =
      Inr (RepeatedBallsIntoBins_ctor [7], g'))"
proof -
  have h1: "(7 :: size_t) > 0" by simp
  have h2: "uniform_int_contract scripted" by (rule scripted_contract)
  have pre: "(7 :: size_t) > 0 \<and> uniform_int_contract scripted"
    using h1 h2 by (rule conjI)
  note inst = single_bin_load_invariant [where m = 7 and sample = scripted and g = "[5, 9]"
      and k = 2, THEN mp, OF pre]
  note c1 = inst [THEN conjunct1]
  note c2 = inst [THEN conjunct2, THEN conjunct1]
  note c3 = inst [THEN conjunct2, THEN conjunct2, THEN conjunct1]
  note c4 = inst [THEN conjunct2, THEN conjunct2, THEN conjunct2, THEN conjunct1]
  note c6 = inst [THEN conjunct2, THEN conjunct2, THEN conjunct2, THEN conjunct2,
      THEN conjunct2, THEN conjunct1]
  note c7 = inst [THEN conjunct2, THEN conjunct2, THEN conjunct2, THEN conjunct2,
      THEN conjunct2, THEN conjunct2]
  show ?thesis
    by (intro conjI) (rule h1 h2 c1 c2 c3 c4 c6 c7)+
qed

section \<open>The averages of the experiment runner\<close>





text \<open>
  The two loops with their \<open>size_t\<close> counters visit exactly these states, adding
  \<open>getMaxLoad\<close> and \<open>getNumEmptyBins\<close> of each to the two sums.
\<close>

lemma rounds_loop_states:
  "rounds_loop sample round num_rounds rbb g a b =
     (case rounds_states sample (unat num_rounds - unat round) rbb g of
        Inl e \<Rightarrow> Inl e
      | Inr (ss, g') \<Rightarrow>
          Inr (g', a + sum_list (map getMaxLoad ss), b + sum_list (map getNumEmptyBins ss)))"
proof (induction sample round num_rounds rbb g a b rule: rounds_loop.induct)
  case (1 sample round num_rounds rbb g a b)
  show ?case
  proof (cases "round < num_rounds")
    case False
    then have "unat num_rounds - unat round = 0"
      by (simp add: word_less_nat_alt)
    with False show ?thesis
      by (subst rounds_loop.simps) simp
  next
    case True
    then have "unat (round + 1) = Suc (unat round)" and "unat round < unat num_rounds"
      by (simp_all add: unat_inc_less word_less_nat_alt)
    then have k: "unat num_rounds - unat round = Suc (unat num_rounds - unat (round + 1))"
      by simp
    show ?thesis
    proof (cases "nextRound sample rbb g")
      case (Inl e)
      with True show ?thesis
        by (subst rounds_loop.simps) (simp add: k)
    next
      case (Inr p)
      obtain rbb' g' where p: "p = (rbb', g')" by (cases p)
      note IH = "1.IH" [OF True Inr p [symmetric]]
      from True Inr p show ?thesis
        by (subst rounds_loop.simps)
          (simp add: k IH add.assoc split: sum.splits prod.splits)
    qed
  qed
qed

lemma repetitions_loop_states:
  "repetitions_loop allocate sample rep num_repetitions num_bins num_balls num_rounds h g a b =
     (case experiment_states allocate sample (unat num_repetitions - unat rep) num_bins num_balls
             (unat num_rounds) h g of
        Inl e \<Rightarrow> Inl e
      | Inr ss \<Rightarrow> Inr (a + sum_list (map getMaxLoad ss), b + sum_list (map getNumEmptyBins ss)))"
proof (induction allocate sample rep num_repetitions num_bins num_balls num_rounds h g a b
    rule: repetitions_loop.induct)
  case (1 allocate sample rep num_repetitions num_bins num_balls num_rounds h g a b)
  show ?case
  proof (cases "rep < num_repetitions")
    case False
    then have "unat num_repetitions - unat rep = 0"
      by (simp add: word_less_nat_alt)
    with False show ?thesis
      by (subst repetitions_loop.simps) simp
  next
    case True
    then have "unat (rep + 1) = Suc (unat rep)" and "unat rep < unat num_repetitions"
      by (simp_all add: unat_inc_less word_less_nat_alt)
    then have k: "unat num_repetitions - unat rep = Suc (unat num_repetitions - unat (rep + 1))"
      by simp
    show ?thesis
    proof (cases "generate_uniform_vector allocate h num_bins num_balls")
      case (Inl e)
      with True show ?thesis
        by (subst repetitions_loop.simps) (simp add: k)
    next
      case gen: (Inr p)
      obtain lv h1 where p: "p = (lv, h1)" by (cases p)
      show ?thesis
      proof (cases "copy_vector_storage allocate h1 lv")
        case (Inl e)
        with True gen p show ?thesis
          by (subst repetitions_loop.simps) (simp add: k)
      next
        case copy: (Inr h2)
        show ?thesis
        proof (cases "rounds_states sample (unat num_rounds) (RepeatedBallsIntoBins_ctor lv) g")
          case (Inl e)
          with True gen p copy show ?thesis
            by (subst repetitions_loop.simps) (simp add: k rounds_loop_states)
        next
          case rounds: (Inr q)
          obtain ss g' where q: "q = (ss, g')" by (cases q)
          let ?a = "a + sum_list (map getMaxLoad ss)"
          let ?b = "b + sum_list (map getNumEmptyBins ss)"
          have loop: "rounds_loop sample 0 num_rounds (RepeatedBallsIntoBins_ctor lv) g a b =
              Inr (g', ?a, ?b)"
            using rounds q by (simp add: rounds_loop_states)
          note IH = "1.IH" [OF True gen p [symmetric] copy loop refl refl]
          from True gen p copy rounds q loop show ?thesis
            by (subst repetitions_loop.simps)
              (simp add: k IH add.assoc split: sum.splits)
        qed
      qed
    qed
  qed
qed

lemma run_experiments_for_n_and_m_states:
  "run_experiments_for_n_and_m to_double fdiv allocate sample h g
       num_bins num_balls num_rounds num_repetitions =
     (case experiment_states allocate sample (unat num_repetitions) num_bins num_balls
             (unat num_rounds) h g of
        Inl e \<Rightarrow> Inl e
      | Inr ss \<Rightarrow>
          Inr (fdiv (to_double (sum_list (map getMaxLoad ss)))
                 (to_double (num_rounds * num_repetitions)),
               fdiv (to_double (sum_list (map getNumEmptyBins ss)))
                 (to_double (num_rounds * num_repetitions))))"
  by (simp add: run_experiments_for_n_and_m_def repetitions_loop_states Let_def
      split: sum.splits)




lemma rounds_states_completes:
  assumes "uniform_int_contract sample"
  shows "stats_consistent s \<Longrightarrow> bin_uar_fixed s \<Longrightarrow> load_vector s \<noteq> [] \<Longrightarrow>
     length (load_vector s) \<le> 2147483647 \<Longrightarrow> total_balls (load_vector s) < 2 ^ 64 \<Longrightarrow>
     \<exists>ss g'. rounds_states sample k s g = Inr (ss, g') \<and>
       (\<forall>t \<in> set ss. stats_consistent t \<and>
          total_balls (load_vector t) = total_balls (load_vector s) \<and>
          length (load_vector t) = length (load_vector s))"
proof (induction k arbitrary: s g)
  case 0
  show ?case by simp
next
  case (Suc k)
  have fits: "vector_fits (load_vector s)"
    using Suc.prems(4) by (simp add: vector_fits_def)
  have ne: "unat (num_empty_bins s) = count_empty (load_vector s)"
    using Suc.prems(1) by (simp add: stats_consistent_def)
  have "unat (balls_to_allocate s) \<le> length (load_vector s)"
    using unat_balls_to_allocate [OF fits ne] by simp
  with Suc.prems(4) have "unat (balls_to_allocate s) \<le> nat INT_MAX"
    by (simp add: INT_MAX_def)
  from nextRound_completes [OF assms Suc.prems(2,3) fits this, of g]
  obtain s' g' where one: "nextRound sample s g = Inr (s', g')"
    by blast
  from nextRound_preserves [OF one fits ne Suc.prems(5)]
  have cons: "stats_consistent s'" and tot: "total_balls (load_vector s') = total_balls (load_vector s)"
    by simp_all
  from nextRound_frame [OF one]
  have len: "length (load_vector s') = length (load_vector s)" and bu: "bin_uar s' = bin_uar s"
    by simp_all
  have fixed: "bin_uar_fixed s'"
    using Suc.prems(2) len bu by (simp add: bin_uar_fixed_def vector_size_def)
  have ne': "load_vector s' \<noteq> []"
    using Suc.prems(3) len by auto
  from Suc.IH [OF cons fixed ne', of g'] Suc.prems(4,5) len tot
  obtain ss g'' where rest: "rounds_states sample k s' g' = Inr (ss, g'')" and
    inv: "\<forall>t \<in> set ss. stats_consistent t \<and>
          total_balls (load_vector t) = total_balls (load_vector s) \<and>
          length (load_vector t) = length (load_vector s)"
    by auto
  from one rest inv cons tot len show ?case
    by simp
qed

lemma experiment_states_completes:
  assumes contract: "uniform_int_contract sample"
    and granted: "\<forall>h n. allocate h n \<noteq> None"
    and nz: "num_bins \<noteq> 0" and small: "unat num_bins \<le> 2147483647"
  shows "\<exists>ss. experiment_states allocate sample reps num_bins num_balls rounds h g = Inr ss \<and>
       (\<forall>t \<in> set ss. stats_consistent t \<and>
          total_balls (load_vector t) = unat num_balls \<and>
          length (load_vector t) = unat num_bins)"
proof (induction reps arbitrary: h g)
  case 0
  show ?case by simp
next
  case (Suc reps)
  from granted have "allocate h num_bins \<noteq> None"
    by blast
  then obtain h1 where a1: "allocate h num_bins = Some h1"
    by blast
  have "unat num_bins \<le> unat vector_max_size"
    using small by (simp add: vector_max_size_def)
  then have le: "num_bins \<le> vector_max_size"
    by (simp add: word_le_nat_alt)
  from generate_uniform_vector_shape [where allocate = allocate and h = h and h' = h1
      and num_bins = num_bins and num_balls = num_balls, OF nz le a1] obtain lv where
    gen: "generate_uniform_vector allocate h num_bins num_balls = Inr (lv, h1)" and
    len: "length lv = unat num_bins" and tot: "total_balls lv = unat num_balls"
    by blast
  from granted have "allocate h1 (vector_size lv) \<noteq> None"
    by blast
  then obtain h2 where a2: "allocate h1 (vector_size lv) = Some h2"
    by blast
  then have copy: "copy_vector_storage allocate h1 lv = Inr h2"
    by (simp add: copy_vector_storage_def)
  let ?s = "RepeatedBallsIntoBins_ctor lv"
  have pos: "0 < unat num_bins"
    using nz by (simp add: unat_gt_0)
  have fits: "vector_fits lv"
    using len unat_bound [of num_bins] by (simp add: vector_fits_def)
  have c1: "stats_consistent ?s"
    using fits by (rule ctor_consistent)
  have c2: "bin_uar_fixed ?s"
    by (rule ctor_bin_uar_fixed)
  have c3: "load_vector ?s \<noteq> []"
    using len pos by (auto simp: ctor_fields)
  have c4: "length (load_vector ?s) \<le> 2147483647"
    using len small by (simp add: ctor_fields)
  have c5: "total_balls (load_vector ?s) < 2 ^ 64"
    using tot unat_bound [of num_balls] by (simp add: ctor_fields)
  from rounds_states_completes [OF contract c1 c2 c3 c4 c5, of rounds g]
  obtain ss g' where rs: "rounds_states sample rounds ?s g = Inr (ss, g')" and
    inv: "\<forall>t \<in> set ss. stats_consistent t \<and>
          total_balls (load_vector t) = unat num_balls \<and>
          length (load_vector t) = unat num_bins"
    using len tot by (auto simp: ctor_fields)
  from Suc.IH [of h2 g'] obtain rest where
    more: "experiment_states allocate sample reps num_bins num_balls rounds h2 g' = Inr rest" and
    inv': "\<forall>t \<in> set rest. stats_consistent t \<and>
          total_balls (load_vector t) = unat num_balls \<and>
          length (load_vector t) = unat num_bins"
    by blast
  from gen copy rs more inv inv' show ?case
    by auto
qed


text \<open>
  With \<open>2^32\<close> rounds and \<open>2^32\<close> repetitions the product \<open>num_rounds * num_repetitions\<close>
  wraps around to \<open>0\<close>: both sums are divided by \<open>double(0)\<close>.
\<close>

lemma run_experiments_divisor_wraps:
  assumes "uniform_int_contract sample" and "\<forall>h n. allocate h n \<noteq> None"
  shows "\<exists>a e. run_experiments_for_n_and_m to_double fdiv allocate sample h g
       1 1 4294967296 4294967296 =
     Inr (fdiv (to_double a) (to_double 0), fdiv (to_double e) (to_double 0))"
proof -
  have "(1 :: size_t) \<noteq> 0" and "unat (1 :: size_t) \<le> 2147483647"
    by simp_all
  from experiment_states_completes [OF assms this]
  obtain ss where es: "experiment_states allocate sample (unat (4294967296 :: size_t)) 1 1
      (unat (4294967296 :: size_t)) h g = Inr ss"
    by blast
  have wrap: "(4294967296 :: size_t) * 4294967296 = 0"
    by simp
  have "run_experiments_for_n_and_m to_double fdiv allocate sample h g
       1 1 4294967296 4294967296 =
     Inr (fdiv (to_double (sum_list (map getMaxLoad ss))) (to_double 0),
          fdiv (to_double (sum_list (map getNumEmptyBins ss))) (to_double 0))"
    by (simp only: run_experiments_for_n_and_m_states es wrap sum.case)
  then show ?thesis
    by blast
qed




section \<open>The vector's length and its indices\<close>

text \<open>
  Claim C9. A \<open>nextRound\<close> call that returns leaves the load vector with the length it
  had; so after any number \<open>k\<close> of rounds on an engine built from \<open>lv\<close> the load vector
  still has the length of \<open>lv\<close>.
\<close>

theorem load_vector_length_fixed:
  "length (load_vector (RepeatedBallsIntoBins_ctor lv)) = length lv \<and>
   (nextRound sample s g = Inr (s', g') \<longrightarrow>
      length (load_vector s') = length (load_vector s)) \<and>
   (nextRounds sample k (RepeatedBallsIntoBins_ctor lv) h = Inr (s'', h') \<longrightarrow>
      length (load_vector s'') = length lv)"
proof (intro conjI impI)
  show "length (load_vector (RepeatedBallsIntoBins_ctor lv)) = length lv"
    by (simp add: ctor_fields)
next
  assume "nextRound sample s g = Inr (s', g')"
  then show "length (load_vector s') = length (load_vector s)"
    by (simp add: nextRound_frame)
next
  assume "nextRounds sample k (RepeatedBallsIntoBins_ctor lv) h = Inr (s'', h')"
  from nextRounds_frame [OF this] show "length (load_vector s'') = length lv"
    by (simp add: ctor_fields)
qed

text \<open>
  The theorem on three bins: one round from \<open>[0, 2, 5]\<close>, and three rounds from
  \<open>[4, 0, 1]\<close> (through \<open>[3, 2, 0]\<close> and \<open>[3, 1, 1]\<close> to \<open>[3, 1, 1]\<close>).
\<close>

theorem load_vector_length_fixed_witness:
  "length (load_vector (RepeatedBallsIntoBins_ctor [4, 0, 1])) = length [4, 0, 1 :: size_t] \<and>
   nextRound scripted (RepeatedBallsIntoBins_ctor [0, 2, 5]) [2, 7] =
     Inr (\<lparr>load_vector = [1, 1, 5], num_empty_bins = 0, max_load = 5, bin_uar = (0, 2)\<rparr>, []) \<and>
   length (load_vector
       \<lparr>load_vector = [1, 1, 5], num_empty_bins = 0, max_load = 5, bin_uar = (0, 2)\<rparr>) =
     length (load_vector (RepeatedBallsIntoBins_ctor [0, 2, 5])) \<and>
   nextRounds scripted 3 (RepeatedBallsIntoBins_ctor [4, 0, 1]) [1, 1, 2, 0, 0, 1, 2, 2] =
     Inr (\<lparr>load_vector = [3, 1, 1], num_empty_bins = 0, max_load = 3, bin_uar = (0, 2)\<rparr>, [2]) \<and>
   length (load_vector
       \<lparr>load_vector = [3, 1, 1], num_empty_bins = 0, max_load = 3, bin_uar = (0, 2)\<rparr>) =
     length [4, 0, 1 :: size_t]"
proof -
  let ?s' = "\<lparr>load_vector = [1, 1, 5], num_empty_bins = 0, max_load = 5, bin_uar = (0, 2)\<rparr>"
  let ?s'' = "\<lparr>load_vector = [3, 1, 1], num_empty_bins = 0, max_load = 3, bin_uar = (0, 2)\<rparr>"
  have h1: "nextRound scripted (RepeatedBallsIntoBins_ctor [0, 2, 5]) [2, 7] = Inr (?s', [])"
    by code_simp
  have h2: "nextRounds scripted 3 (RepeatedBallsIntoBins_ctor [4, 0, 1]) [1, 1, 2, 0, 0, 1, 2, 2] =
      Inr (?s'', [2])"
    by code_simp
  note inst = load_vector_length_fixed [where lv = "[4, 0, 1]" and sample = scripted
      and s = "RepeatedBallsIntoBins_ctor [0, 2, 5]" and g = "[2, 7]" and s' = "?s'" and g' = "[]"
      and k = 3 and h = "[1, 1, 2, 0, 0, 1, 2, 2]" and s'' = "?s''" and h' = "[2]"]
  note c1 = inst [THEN conjunct1]
  note c2 = inst [THEN conjunct2, THEN conjunct1, THEN mp, OF h1]
  note c3 = inst [THEN conjunct2, THEN conjunct2, THEN mp, OF h2]
  show ?thesis
    by (intro conjI) (rule c1 h1 c2 h2 c3)+
qed

text \<open>
  Claim C10. For an engine built from a non-empty load vector \<open>lv\<close>, with draws in the
  distribution's range: the distribution is set to \<open>[0, n - 1]\<close> at construction; no
  number \<open>k\<close> of rounds ever indexes the vector out of range, in phase 1 or phase 2; and
  in every state reached the distribution is still \<open>[0, n - 1]\<close>, the vector still has
  length \<open>n\<close>, and every sample is a valid index.
\<close>

theorem every_access_in_bounds:
  "lv \<noteq> [] \<and> vector_fits lv \<and> uniform_int_contract sample \<longrightarrow>
     bin_uar (RepeatedBallsIntoBins_ctor lv) = (0, vector_size lv - 1) \<and>
     unat (vector_size lv - 1) = length lv - 1 \<and>
     nextRounds sample k (RepeatedBallsIntoBins_ctor lv) g \<noteq> Inl IndexOutOfRange \<and>
     (nextRounds sample k (RepeatedBallsIntoBins_ctor lv) g = Inr (s', g') \<longrightarrow>
        bin_uar s' = (0, vector_size lv - 1) \<and>
        length (load_vector s') = length lv \<and>
        (\<forall>h. unat (fst (sample (bin_uar s') h)) < length (load_vector s')) \<and>
        nextRound sample s' g' \<noteq> Inl IndexOutOfRange)"
proof (intro impI)
  let ?s = "RepeatedBallsIntoBins_ctor lv"
  assume pre: "lv \<noteq> [] \<and> vector_fits lv \<and> uniform_int_contract sample"
  then have ne: "load_vector ?s \<noteq> []" and fits: "vector_fits (load_vector ?s)"
    and c: "uniform_int_contract sample"
    by (simp_all add: ctor_fields)
  have fixed: "bin_uar_fixed ?s"
    by (rule ctor_bin_uar_fixed)
  have n: "unat (vector_size lv - 1) = length lv - 1"
  proof -
    have "unat (vector_size lv) = length lv"
      using pre by (simp add: unat_vector_size)
    moreover from this pre have "vector_size lv \<noteq> 0"
      by (auto simp flip: unat_0_iff)
    ultimately show ?thesis
      by (simp add: unat_minus_one)
  qed
  have reached: "bin_uar s' = (0, vector_size lv - 1) \<and>
        length (load_vector s') = length lv \<and>
        (\<forall>h. unat (fst (sample (bin_uar s') h)) < length (load_vector s')) \<and>
        nextRound sample s' g' \<noteq> Inl IndexOutOfRange"
    if run: "nextRounds sample k ?s g = Inr (s', g')"
  proof -
    from nextRounds_frame [OF run]
    have len: "length (load_vector s') = length lv" and bu: "bin_uar s' = (0, vector_size lv - 1)"
      by (simp_all add: ctor_fields)
    have fixed': "bin_uar_fixed s'"
      using len bu by (simp add: bin_uar_fixed_def vector_size_def)
    have ne': "load_vector s' \<noteq> []" and fits': "vector_fits (load_vector s')"
      using pre len by (auto simp: vector_fits_def)
    have "unat (fst (sample (bin_uar s') h)) < length (load_vector s')" for h
      using c fixed' ne' fits' by (rule sample_in_range)
    with len bu nextRound_in_bounds [OF c fixed' ne' fits', of g'] show ?thesis
      by simp
  qed
  have dist: "bin_uar ?s = (0, vector_size lv - 1)"
    by (simp add: ctor_fields)
  from dist nextRounds_in_bounds [OF c fixed ne fits, of k g] n reached show
    "bin_uar ?s = (0, vector_size lv - 1) \<and>
     unat (vector_size lv - 1) = length lv - 1 \<and>
     nextRounds sample k ?s g \<noteq> Inl IndexOutOfRange \<and>
     (nextRounds sample k ?s g = Inr (s', g') \<longrightarrow>
        bin_uar s' = (0, vector_size lv - 1) \<and>
        length (load_vector s') = length lv \<and>
        (\<forall>h. unat (fst (sample (bin_uar s') h)) < length (load_vector s')) \<and>
        nextRound sample s' g' \<noteq> Inl IndexOutOfRange)"
    by blast
qed

text \<open>
  The theorem on the three bins \<open>[4, 0, 1]\<close> over three rounds; the script asks for bins
  \<open>9\<close> and \<open>3\<close>, which the distribution's range \<open>[0, 2]\<close> excludes.
\<close>

theorem every_access_in_bounds_witness:
  "[4, 0, 1 :: size_t] \<noteq> [] \<and> vector_fits [4, 0, 1 :: size_t] \<and>
   uniform_int_contract scripted \<and>
   bin_uar (RepeatedBallsIntoBins_ctor [4, 0, 1]) = (0, vector_size [4, 0, 1 :: size_t] - 1) \<and>
   unat (vector_size [4, 0, 1 :: size_t] - 1) = length [4, 0, 1 :: size_t] - 1 \<and>
   nextRounds scripted 3 (RepeatedBallsIntoBins_ctor [4, 0, 1]) [9, 1, 2, 3, 0, 1, 2, 2] \<noteq>
     Inl IndexOutOfRange \<and>
   nextRounds scripted 3 (RepeatedBallsIntoBins_ctor [4, 0, 1]) [9, 1, 2, 3, 0, 1, 2, 2] =
     Inr (\<lparr>load_vector = [4, 1, 0], num_empty_bins = 1, max_load = 4, bin_uar = (0, 2)\<rparr>, [2, 2]) \<and>
   bin_uar \<lparr>load_vector = [4, 1, 0], num_empty_bins = 1, max_load = 4, bin_uar = (0, 2)\<rparr> =
     (0, vector_size [4, 0, 1 :: size_t] - 1) \<and>
   length (load_vector
       \<lparr>load_vector = [4, 1, 0], num_empty_bins = 1, max_load = 4, bin_uar = (0, 2)\<rparr>) =
     length [4, 0, 1 :: size_t] \<and>
   (\<forall>h. unat (fst (scripted
        (bin_uar \<lparr>load_vector = [4, 1, 0], num_empty_bins = 1, max_load = 4, bin_uar = (0, 2)\<rparr>) h))
      < length (load_vector
          \<lparr>load_vector = [4, 1, 0], num_empty_bins = 1, max_load = 4, bin_uar = (0, 2)\<rparr>)) \<and>
   nextRound scripted
       \<lparr>load_vector = [4, 1, 0], num_empty_bins = 1, max_load = 4, bin_uar = (0, 2)\<rparr> [2, 2] \<noteq>
     Inl IndexOutOfRange"
proof -
  let ?s' = "\<lparr>load_vector = [4, 1, 0], num_empty_bins = 1, max_load = 4, bin_uar = (0, 2)\<rparr>"
  have h1: "[4, 0, 1 :: size_t] \<noteq> []" by simp
  have h2: "vector_fits [4, 0, 1 :: size_t]" by (simp add: vector_fits_def)
  have h3: "uniform_int_contract scripted" by (rule scripted_contract)
  have h4: "nextRounds scripted 3 (RepeatedBallsIntoBins_ctor [4, 0, 1]) [9, 1, 2, 3, 0, 1, 2, 2] =
      Inr (?s', [2, 2])"
    by code_simp
  have pre: "[4, 0, 1 :: size_t] \<noteq> [] \<and> vector_fits [4, 0, 1 :: size_t] \<and>
      uniform_int_contract scripted"
    by (intro conjI) (rule h1 h2 h3)+
  note inst = every_access_in_bounds [where lv = "[4, 0, 1]" and sample = scripted and k = 3
      and g = "[9, 1, 2, 3, 0, 1, 2, 2]" and s' = "?s'" and g' = "[2, 2]", THEN mp, OF pre]
  note c1 = inst [THEN conjunct1]
  note c2 = inst [THEN conjunct2, THEN conjunct1]
  note c3 = inst [THEN conjunct2, THEN conjunct2, THEN conjunct1]
  note c4 = inst [THEN conjunct2, THEN conjunct2, THEN conjunct2, THEN mp, OF h4]
  show ?thesis
    by (intro conjI) (rule h1 h2 h3 c1 c2 c3 h4 c4 [THEN conjunct1]
        c4 [THEN conjunct2, THEN conjunct1]
        c4 [THEN conjunct2, THEN conjunct2, THEN conjunct1]
        c4 [THEN conjunct2, THEN conjunct2, THEN conjunct2])+
qed

end
